theory Spec2Isabelle
  imports Main "HOL-Library.Word"
begin

unbundle bit_operations_syntax

section \<open>Errors\<close>

text \<open>
  Every failure of the library is a thrown \<^verbatim>\<open>std::invalid_argument\<close> carrying a message.
  Three further outcomes are not exceptions in C++ but undefined behaviour that the model
  records as values: writing through a null pointer, reading a \<^verbatim>\<open>std::vector\<close>
  with \<^verbatim>\<open>operator[]\<close> at an index that is not below its size, and shifting a 64-bit
  value by a count that is not below 64.
\<close>

datatype error =
    invalid_argument string
  | null_pointer_dereference
  | vector_index_out_of_range
  | shift_out_of_range

text \<open>
  An exception leaves the objects as the throw found them and the caller may go on;
  after undefined behaviour nothing is known of the program.
\<close>

fun undefinedBehaviour :: "error \<Rightarrow> bool" where
  "undefinedBehaviour (invalid_argument msg) = False"
| "undefinedBehaviour null_pointer_dereference = True"
| "undefinedBehaviour vector_index_out_of_range = True"
| "undefinedBehaviour shift_out_of_range = True"

text \<open>\<^verbatim>\<open>std::to_string\<close> on an unsigned value: its decimal digits.\<close>

function to_string :: "nat \<Rightarrow> string" where
  "to_string n =
     (if n < 10 then [''0123456789'' ! n]
      else to_string (n div 10) @ [''0123456789'' ! (n mod 10)])"
  by pat_completeness auto
termination
  by (relation "measure (\<lambda>n. n)") auto

section \<open>Register model (regs.h, regs.cpp)\<close>

subsection \<open>BasicRegister\<close>

text \<open>
  \<^verbatim>\<open>enum Size { Size8 = 8, Size16 = 16, Size32 = 32, Size64 = 64 }\<close>; \<open>sizeBits\<close> is the
  enumerator's integer value, which is both a bit count and a bit of the \<open>sizes\<close> mask.
\<close>

datatype Size = Size8 | Size16 | Size32 | Size64

fun sizeBits :: "Size \<Rightarrow> nat" where
  "sizeBits Size8 = 8"
| "sizeBits Size16 = 16"
| "sizeBits Size32 = 32"
| "sizeBits Size64 = 64"

text \<open>\<^verbatim>\<open>enum Flag\<close> of BasicRegister: bits of the 16-bit \<open>flags\<close> word.\<close>

definition TwoAddress :: "16 word" where "TwoAddress = 0x0001"
definition ThreeAddress :: "16 word" where "ThreeAddress = 0x0002"
definition StackPointer :: "16 word" where "StackPointer = 0x0004"
definition ProgramCounter :: "16 word" where "ProgramCounter = 0x0008"
definition Link :: "16 word" where "Link = 0x0010"
definition Address :: "16 word" where "Address = 0x0020"
definition Data :: "16 word" where "Data = 0x0040"
definition Storage :: "16 word" where "Storage = 0x0080"
definition SignExtend :: "16 word" where "SignExtend = 0x0100"
definition CalleeSaved :: "16 word" where "CalleeSaved = 0x0200"
definition Zero :: "16 word" where "Zero = 0x0400"
definition Temporary :: "16 word" where "Temporary = 0x0800"
definition NoAllocate :: "16 word" where "NoAllocate = 0x1000"

text \<open>
  A BasicRegister is a handle on a shared, copy-on-write \<^verbatim>\<open>Private\<close> block. Sharing is
  invisible to the value, so the model is the block itself (without its reference count);
  a handle whose pointer is still null reads as the default block, which is
  \<open>BasicRegister_null\<close>.
\<close>

record BasicRegister =
  number :: "8 word"
  sizes :: "8 word"
  flags :: "16 word"
  name8 :: string
  name16 :: string
  name32 :: string
  name64 :: string
  addrName :: string

definition BasicRegister_null :: BasicRegister where
  "BasicRegister_null =
     \<lparr>number = 255, sizes = 8, flags = 0, name8 = [], name16 = [], name32 = [],
      name64 = [], addrName = []\<rparr>"

definition hasSize :: "BasicRegister \<Rightarrow> Size \<Rightarrow> bool" where
  "hasSize r sz \<longleftrightarrow> (sizes r AND of_nat (sizeBits sz)) \<noteq> 0"

definition hasFlag :: "BasicRegister \<Rightarrow> 16 word \<Rightarrow> bool" where
  "hasFlag r flag \<longleftrightarrow> (flags r AND flag) = flag"

definition maxSize :: "BasicRegister \<Rightarrow> Size" where
  "maxSize r =
     (if hasSize r Size64 then Size64
      else if hasSize r Size32 then Size32
      else if hasSize r Size16 then Size16
      else Size8)"

definition addressName :: "BasicRegister \<Rightarrow> string" where
  "addressName r =
     (if addrName r \<noteq> [] then addrName r
      else if hasSize r Size64 then name64 r
      else if hasSize r Size32 then name32 r
      else name16 r)"

fun nameForSize :: "BasicRegister \<Rightarrow> Size \<Rightarrow> string" where
  "nameForSize r Size8 = name8 r"
| "nameForSize r Size16 = name16 r"
| "nameForSize r Size32 = name32 r"
| "nameForSize r Size64 = name64 r"

definition reg32 :: "8 word \<Rightarrow> string \<Rightarrow> 16 word \<Rightarrow> BasicRegister" where
  "reg32 num name fl =
     BasicRegister_null\<lparr>number := num, sizes := 32, name32 := name, flags := fl\<rparr>"

definition reg64 :: "8 word \<Rightarrow> string \<Rightarrow> 16 word \<Rightarrow> BasicRegister" where
  "reg64 num name fl =
     BasicRegister_null\<lparr>number := num, sizes := 64, name64 := name, flags := fl\<rparr>"

definition reg3264 :: "8 word \<Rightarrow> string \<Rightarrow> string \<Rightarrow> 16 word \<Rightarrow> BasicRegister" where
  "reg3264 num n32 n64 fl =
     BasicRegister_null\<lparr>number := num, sizes := 32 OR 64, name32 := n32, name64 := n64,
       flags := fl\<rparr>"

subsection \<open>SizedRegister\<close>

text \<open>
  The pair of a basic register and its chosen size. The source calls the second member
  \<^verbatim>\<open>m_size\<close>; it is \<open>m_regSize\<close> here because \<open>Reg\<close> has a member of the same name.
\<close>

record SizedRegister =
  m_reg :: BasicRegister
  m_regSize :: Size

definition SizedRegister_null :: SizedRegister where
  "SizedRegister_null = \<lparr>m_reg = BasicRegister_null, m_regSize = Size8\<rparr>"

text \<open>The checking constructor \<^verbatim>\<open>SizedRegister(reg, size)\<close>.\<close>

definition SizedRegister_new :: "BasicRegister \<Rightarrow> Size \<Rightarrow> error + SizedRegister" where
  "SizedRegister_new r sz =
     (if ((of_nat (sizeBits sz) :: 8 word) AND sizes r) \<noteq> of_nat (sizeBits sz)
      then Inl (invalid_argument
             (''register '' @ addressName r @ '' does not support the '' @
              to_string (sizeBits sz) @ ''-bit size''))
      else Inr \<lparr>m_reg = r, m_regSize = sz\<rparr>)"

definition sr_name :: "SizedRegister \<Rightarrow> string" where
  "sr_name sr = nameForSize (m_reg sr) (m_regSize sr)"

definition sr_number :: "SizedRegister \<Rightarrow> 8 word" where
  "sr_number sr = number (m_reg sr)"

text \<open>\<^verbatim>\<open>SizedRegister::operator==\<close>: same register number and same size.\<close>

definition sr_eq :: "SizedRegister \<Rightarrow> SizedRegister \<Rightarrow> bool" where
  "sr_eq a b \<longleftrightarrow> number (m_reg a) = number (m_reg b) \<and> m_regSize a = m_regSize b"

subsection \<open>Reg\<close>

text \<open>
  The members of type \<^verbatim>\<open>size_t\<close> are natural numbers below \<open>2 ^ 64\<close>; where the source's
  unsigned arithmetic can wrap around, the model writes the reduction modulo \<open>2 ^ 64\<close>.
\<close>

record Reg =
  m_size :: nat
  m_fullSize :: nat
  m_zeroFill :: bool
  m_regs :: "SizedRegister list"

definition Reg_null :: Reg where
  "Reg_null = \<lparr>m_size = 0, m_fullSize = 0, m_zeroFill = True, m_regs = []\<rparr>"

definition isNull :: "Reg \<Rightarrow> bool" where
  "isNull r \<longleftrightarrow> m_size r = 0"

definition numRegs :: "Reg \<Rightarrow> nat" where
  "numRegs r = length (m_regs r)"

definition limbSize :: "Reg \<Rightarrow> nat" where
  "limbSize r = (if length (m_regs r) > 0 then sizeBits (m_regSize (m_regs r ! 0)) else 0)"

definition setZeroFill :: "Reg \<Rightarrow> bool \<Rightarrow> Reg" where
  "setZeroFill r z = r\<lparr>m_zeroFill := z\<rparr>"

text \<open>
  \<^verbatim>\<open>Reg::setSize\<close>. The bound \<^verbatim>\<open>m_fullSize - limbSize()\<close> is an unsigned subtraction.
\<close>

definition setSize :: "Reg \<Rightarrow> nat \<Rightarrow> error + Reg" where
  "setSize r sz =
     (if sz > m_fullSize r \<or> sz \<le> (m_fullSize r + 2 ^ 64 - limbSize r) mod 2 ^ 64
      then Inl (invalid_argument ''invalid size for Reg object'')
      else Inr (r\<lparr>m_size := sz\<rparr>))"

text \<open>\<^verbatim>\<open>Reg::addRegister(const SizedRegister &)\<close>.\<close>

definition addRegister :: "Reg \<Rightarrow> SizedRegister \<Rightarrow> error + Reg" where
  "addRegister r sr =
     (if \<exists>x \<in> set (m_regs r). number (m_reg sr) = number (m_reg x)
      then Inl (invalid_argument (sr_name sr @ '' appears twiwce in a Reg instance''))
      else if length (m_regs r) > 0 \<and> m_regSize (m_regs r ! 0) \<noteq> m_regSize sr
      then Inl (invalid_argument
             (sr_name sr @ '' is not the same size as other Reg members such as '' @
              sr_name (m_regs r ! 0)))
      else Inr (r\<lparr>m_regs := m_regs r @ [sr],
                  m_size := (m_size r + sizeBits (m_regSize sr)) mod 2 ^ 64,
                  m_fullSize := (m_fullSize r + sizeBits (m_regSize sr)) mod 2 ^ 64\<rparr>))"

text \<open>\<^verbatim>\<open>Reg::addRegister(const BasicRegister &, Size)\<close> builds the sized register first.\<close>

definition addRegisterSized :: "Reg \<Rightarrow> BasicRegister \<Rightarrow> Size \<Rightarrow> error + Reg" where
  "addRegisterSized r b sz =
     (case SizedRegister_new b sz of
        Inl e \<Rightarrow> Inl e
      | Inr sr \<Rightarrow> addRegister r sr)"

text \<open>
  \<^verbatim>\<open>Reg::reversed\<close>. The loop runs \<^verbatim>\<open>index\<close> from \<^verbatim>\<open>m_regs.size()\<close> down to 1 and
  pushes \<^verbatim>\<open>m_regs[index - 1]\<close>.
\<close>

fun reversed_loop :: "SizedRegister list \<Rightarrow> Reg \<Rightarrow> nat \<Rightarrow> Reg" where
  "reversed_loop regs result 0 = result"
| "reversed_loop regs result (Suc i) =
     reversed_loop regs (result\<lparr>m_regs := m_regs result @ [regs ! i]\<rparr>) i"

definition reversed :: "Reg \<Rightarrow> error + Reg" where
  "reversed r =
     (if m_size r \<noteq> m_fullSize r
      then Inl (invalid_argument ''cannot reverse an odd-sized register'')
      else Inr (reversed_loop (m_regs r)
                  (Reg_null\<lparr>m_size := m_size r, m_fullSize := m_fullSize r,
                     m_zeroFill := True\<rparr>)
                  (length (m_regs r))))"

text \<open>
  \<^verbatim>\<open>Reg::subset\<close>. The copying loop is \<^verbatim>\<open>while (from <= to)\<close> with an unchecked
  \<^verbatim>\<open>m_regs[from]\<close>; a read at an index that is not below \<^verbatim>\<open>m_regs.size()\<close> is the
  value \<open>vector_index_out_of_range\<close>.
\<close>

function subset_loop :: "SizedRegister list \<Rightarrow> Reg \<Rightarrow> nat \<Rightarrow> nat \<Rightarrow> error + Reg" where
  "subset_loop regs result from to =
     (if from \<le> to
      then (if from < length regs
            then subset_loop regs (result\<lparr>m_regs := m_regs result @ [regs ! from]\<rparr>)
                   (from + 1) to
            else Inl vector_index_out_of_range)
      else Inr result)"
  by pat_completeness auto
termination
  by (relation "measure (\<lambda>(regs, result, from, to). to + 1 - from)") auto

definition subset :: "Reg \<Rightarrow> nat \<Rightarrow> nat \<Rightarrow> error + Reg" where
  "subset r start len0 =
     (let len1 = (if len0 = 0 then m_size r else len0) in
      if m_regs r = [] \<or> start \<ge> m_size r then Inr Reg_null
      else
        let len = (if (start + len1) mod 2 ^ 64 > m_size r then m_size r - start else len1) in
        if len = 0 then Inr Reg_null
        else
          let rsize = sizeBits (m_regSize (m_regs r ! 0)) in
          if start mod rsize \<noteq> 0
          then Inl (invalid_argument
                 (''start of subset is not a multiple of '' @ to_string rsize))
          else if (start + len) mod 2 ^ 64 < m_size r
          then
            (if len mod rsize \<noteq> 0
             then Inl (invalid_argument
                    (''length of subset is not a multiple of '' @ to_string rsize))
             else subset_loop (m_regs r)
                    (Reg_null\<lparr>m_size := len div rsize, m_fullSize := len div rsize,
                       m_zeroFill := True\<rparr>)
                    (start div rsize) ((start + len) mod 2 ^ 64 div rsize))
          else subset_loop (m_regs r)
                 (Reg_null\<lparr>m_size := m_size r - start,
                    m_fullSize := (m_fullSize r + 2 ^ 64 - start) mod 2 ^ 64,
                    m_zeroFill := m_zeroFill r\<rparr>)
                 (start div rsize) (length (m_regs r)))"

section \<open>Instruction records (insns.h, insns.cpp)\<close>

text \<open>
  \<^verbatim>\<open>enum Type\<close>: the opcode, by its enumerator value (\<^verbatim>\<open>Unknown\<close> is 0, \<^verbatim>\<open>XORI\<close> is 93).
  The enumerators \<^verbatim>\<open>AND\<close>, \<^verbatim>\<open>OR\<close>, \<^verbatim>\<open>XOR\<close> and \<^verbatim>\<open>NOT\<close> carry the suffix \<open>_insn\<close>.
\<close>

type_synonym Type = nat

definition Unknown :: Type where "Unknown = 0"
definition ADC :: Type where "ADC = 1"
definition ADCI :: Type where "ADCI = 2"
definition ADD :: Type where "ADD = 3"
definition ADDI :: Type where "ADDI = 4"
definition AND_insn :: Type where "AND_insn = 5"
definition ANDI :: Type where "ANDI = 6"
definition ASR :: Type where "ASR = 7"
definition ASRI :: Type where "ASRI = 8"
definition BIC :: Type where "BIC = 9"
definition BICI :: Type where "BICI = 10"
definition BREQ :: Type where "BREQ = 11"
definition BRGES :: Type where "BRGES = 12"
definition BRGEU :: Type where "BRGEU = 13"
definition BRGTS :: Type where "BRGTS = 14"
definition BRGTU :: Type where "BRGTU = 15"
definition BRLES :: Type where "BRLES = 16"
definition BRLEU :: Type where "BRLEU = 17"
definition BRLTS :: Type where "BRLTS = 18"
definition BRLTU :: Type where "BRLTU = 19"
definition BRNE :: Type where "BRNE = 20"
definition CMP :: Type where "CMP = 21"
definition CMPI :: Type where "CMPI = 22"
definition CMPNI :: Type where "CMPNI = 23"
definition CMP_BREQ :: Type where "CMP_BREQ = 24"
definition CMP_BRNE :: Type where "CMP_BRNE = 25"
definition CMPI_BREQ :: Type where "CMPI_BREQ = 26"
definition CMPI_BRNE :: Type where "CMPI_BRNE = 27"
definition EXTS :: Type where "EXTS = 28"
definition EXTU :: Type where "EXTU = 29"
definition FSLI :: Type where "FSLI = 30"
definition FSRI :: Type where "FSRI = 31"
definition JMP :: Type where "JMP = 32"
definition LABEL :: Type where "LABEL = 33"
definition LD8 :: Type where "LD8 = 34"
definition LD8S :: Type where "LD8S = 35"
definition LD8_ARRAY :: Type where "LD8_ARRAY = 36"
definition LD8S_ARRAY :: Type where "LD8S_ARRAY = 37"
definition LD16 :: Type where "LD16 = 38"
definition LD16S :: Type where "LD16S = 39"
definition LD16_ARRAY :: Type where "LD16_ARRAY = 40"
definition LD16S_ARRAY :: Type where "LD16S_ARRAY = 41"
definition LD32 :: Type where "LD32 = 42"
definition LD32S :: Type where "LD32S = 43"
definition LD32_ARRAY :: Type where "LD32_ARRAY = 44"
definition LD32S_ARRAY :: Type where "LD32S_ARRAY = 45"
definition LD64 :: Type where "LD64 = 46"
definition LD64_ARRAY :: Type where "LD64_ARRAY = 47"
definition LD_LABEL :: Type where "LD_LABEL = 48"
definition LDARG8 :: Type where "LDARG8 = 49"
definition LDARG16 :: Type where "LDARG16 = 50"
definition LDARG32 :: Type where "LDARG32 = 51"
definition LDARG64 :: Type where "LDARG64 = 52"
definition LDI :: Type where "LDI = 53"
definition LSL :: Type where "LSL = 54"
definition LSLI :: Type where "LSLI = 55"
definition LSR :: Type where "LSR = 56"
definition LSRI :: Type where "LSRI = 57"
definition MOV :: Type where "MOV = 58"
definition MOVI :: Type where "MOVI = 59"
definition MOVN :: Type where "MOVN = 60"
definition MOVW :: Type where "MOVW = 61"
definition MOVT :: Type where "MOVT = 62"
definition NEG :: Type where "NEG = 63"
definition NOP :: Type where "NOP = 64"
definition NOT_insn :: Type where "NOT_insn = 65"
definition OR_insn :: Type where "OR_insn = 66"
definition ORI :: Type where "ORI = 67"
definition POP :: Type where "POP = 68"
definition PUSH :: Type where "PUSH = 69"
definition PRINT :: Type where "PRINT = 70"
definition PRINTCH :: Type where "PRINTCH = 71"
definition PRINTLN :: Type where "PRINTLN = 72"
definition ROL :: Type where "ROL = 73"
definition ROLI :: Type where "ROLI = 74"
definition ROR :: Type where "ROR = 75"
definition RORI :: Type where "RORI = 76"
definition SBC :: Type where "SBC = 77"
definition SBCI :: Type where "SBCI = 78"
definition SUB :: Type where "SUB = 79"
definition SUBI :: Type where "SUBI = 80"
definition SUBR :: Type where "SUBR = 81"
definition SUBRI :: Type where "SUBRI = 82"
definition ST8 :: Type where "ST8 = 83"
definition ST8_ARRAY :: Type where "ST8_ARRAY = 84"
definition ST16 :: Type where "ST16 = 85"
definition ST16_ARRAY :: Type where "ST16_ARRAY = 86"
definition ST32 :: Type where "ST32 = 87"
definition ST32_ARRAY :: Type where "ST32_ARRAY = 88"
definition ST64 :: Type where "ST64 = 89"
definition ST64_ARRAY :: Type where "ST64_ARRAY = 90"
definition SWAP :: Type where "SWAP = 91"
definition XOR_insn :: Type where "XOR_insn = 92"
definition XORI :: Type where "XORI = 93"

datatype Modifier = MOD_NONE | MOD_ASR | MOD_LSL | MOD_LSR | MOD_ROR

datatype Option = NONE | SHORT | SETC

text \<open>\<^verbatim>\<open>enum Fields\<close>: bits of the \<open>fields\<close> byte.\<close>

definition DEST :: "8 word" where "DEST = 1"
definition SRC1 :: "8 word" where "SRC1 = 2"
definition SRC2 :: "8 word" where "SRC2 = 4"
definition IMM :: "8 word" where "IMM = 8"
definition LAB :: "8 word" where "LAB = 16"

text \<open>
  \<^verbatim>\<open>Insn::Private\<close> without its reference count. The member \<^verbatim>\<open>fields\<close> is
  \<open>insn_fields\<close> here.
\<close>

record InsnPrivate =
  type :: Type
  modifier :: Modifier
  shift :: "8 word"
  insn_fields :: "8 word"
  reschedule :: "8 word"
  option :: Option
  dest :: SizedRegister
  src1 :: SizedRegister
  src2 :: SizedRegister
  immValue :: "64 word"

definition InsnPrivate_new :: InsnPrivate where
  "InsnPrivate_new =
     \<lparr>type = Unknown, modifier = MOD_NONE, shift = 0, insn_fields = 0, reschedule = 0,
      option = NONE, dest = SizedRegister_null, src1 = SizedRegister_null,
      src2 = SizedRegister_null, immValue = 0\<rparr>"

text \<open>
  An \<^verbatim>\<open>Insn\<close> is the pointer \<^verbatim>\<open>p\<close> to its private block: \<open>None\<close> is the null pointer
  of \<^verbatim>\<open>Insn()\<close>.
\<close>

type_synonym Insn = "InsnPrivate option"

definition Insn_new :: Insn where
  "Insn_new = None"

text \<open>\<^verbatim>\<open>Insn::read\<close> allocates the default block for a null handle and returns the block.\<close>

definition Insn_read :: "Insn \<Rightarrow> InsnPrivate" where
  "Insn_read insn = (case insn of None \<Rightarrow> InsnPrivate_new | Some pr \<Rightarrow> pr)"

text \<open>\<^verbatim>\<open>Insn::write\<close> is \<^verbatim>\<open>{ return 0; }\<close>: the pointer it returns is null.\<close>

definition Insn_write :: "Insn \<Rightarrow> InsnPrivate option" where
  "Insn_write insn = None"

text \<open>
  The statement \<^verbatim>\<open>write()->field = value\<close>: a store through the pointer that
  \<open>Insn_write\<close> returns, which is a null dereference when that pointer is null.
\<close>

definition store :: "Insn \<Rightarrow> (InsnPrivate \<Rightarrow> InsnPrivate) \<Rightarrow> error + Insn" where
  "store insn upd =
     (case Insn_write insn of
        None \<Rightarrow> Inl null_pointer_dereference
      | Some pr \<Rightarrow> Inr (Some (upd pr)))"

text \<open>Sequencing of fallible steps: the first error ends the computation.\<close>

definition andThen :: "error + 'a \<Rightarrow> ('a \<Rightarrow> error + 'b) \<Rightarrow> error + 'b" where
  "andThen m f = (case m of Inl e \<Rightarrow> Inl e | Inr x \<Rightarrow> f x)"

definition insn_type :: "Insn \<Rightarrow> Type" where
  "insn_type insn = type (Insn_read insn)"

definition setType :: "Insn \<Rightarrow> Type \<Rightarrow> error + Insn" where
  "setType insn t = store insn (\<lambda>pr. pr\<lparr>type := t\<rparr>)"

definition setDest :: "Insn \<Rightarrow> SizedRegister \<Rightarrow> error + Insn" where
  "setDest insn d =
     andThen (store insn (\<lambda>pr. pr\<lparr>dest := d\<rparr>))
       (\<lambda>insn1. store insn1 (\<lambda>pr. pr\<lparr>insn_fields := insn_fields pr OR DEST\<rparr>))"

definition setSrc1 :: "Insn \<Rightarrow> SizedRegister \<Rightarrow> error + Insn" where
  "setSrc1 insn s =
     andThen (store insn (\<lambda>pr. pr\<lparr>src1 := s\<rparr>))
       (\<lambda>insn1. store insn1 (\<lambda>pr. pr\<lparr>insn_fields := insn_fields pr OR SRC1\<rparr>))"

definition setSrc2 :: "Insn \<Rightarrow> SizedRegister \<Rightarrow> error + Insn" where
  "setSrc2 insn s =
     andThen (store insn (\<lambda>pr. pr\<lparr>src2 := s\<rparr>))
       (\<lambda>insn1. store insn1 (\<lambda>pr. pr\<lparr>insn_fields := insn_fields pr OR SRC2\<rparr>))"

definition setModifier :: "Insn \<Rightarrow> Modifier \<Rightarrow> error + Insn" where
  "setModifier insn m = store insn (\<lambda>pr. pr\<lparr>modifier := m\<rparr>)"

definition setShift :: "Insn \<Rightarrow> 8 word \<Rightarrow> error + Insn" where
  "setShift insn s = store insn (\<lambda>pr. pr\<lparr>shift := s\<rparr>)"

definition setImmValue :: "Insn \<Rightarrow> 64 word \<Rightarrow> error + Insn" where
  "setImmValue insn v =
     andThen (store insn (\<lambda>pr. pr\<lparr>immValue := v\<rparr>))
       (\<lambda>insn1. store insn1 (\<lambda>pr. pr\<lparr>insn_fields := insn_fields pr OR IMM\<rparr>))"

definition setLabel :: "Insn \<Rightarrow> 16 word \<Rightarrow> error + Insn" where
  "setLabel insn l =
     andThen (store insn (\<lambda>pr. pr\<lparr>immValue := ucast l\<rparr>))
       (\<lambda>insn1. store insn1 (\<lambda>pr. pr\<lparr>insn_fields := insn_fields pr OR LAB\<rparr>))"

definition setOption :: "Insn \<Rightarrow> Option \<Rightarrow> error + Insn" where
  "setOption insn opt = store insn (\<lambda>pr. pr\<lparr>option := opt\<rparr>)"

text \<open>The static constructors.\<close>

definition bare :: "Type \<Rightarrow> error + Insn" where
  "bare t = setType Insn_new t"

definition unary :: "Type \<Rightarrow> SizedRegister \<Rightarrow> SizedRegister \<Rightarrow> Option \<Rightarrow> error + Insn" where
  "unary t d s opt =
     andThen (setType Insn_new t) (\<lambda>i1.
     andThen (setDest i1 d) (\<lambda>i2.
     andThen (setSrc1 i2 s) (\<lambda>i3.
     setOption i3 opt)))"

definition binary ::
  "Type \<Rightarrow> SizedRegister \<Rightarrow> SizedRegister \<Rightarrow> SizedRegister \<Rightarrow> Option \<Rightarrow> error + Insn" where
  "binary t d s1 s2 opt =
     andThen (setType Insn_new t) (\<lambda>i1.
     andThen (setDest i1 d) (\<lambda>i2.
     andThen (setSrc1 i2 s1) (\<lambda>i3.
     andThen (setSrc2 i3 s2) (\<lambda>i4.
     setOption i4 opt))))"

definition binaryMod ::
  "Type \<Rightarrow> SizedRegister \<Rightarrow> SizedRegister \<Rightarrow> SizedRegister \<Rightarrow> Modifier \<Rightarrow> 8 word \<Rightarrow> Option
     \<Rightarrow> error + Insn" where
  "binaryMod t d s1 s2 m sh opt =
     andThen (setType Insn_new t) (\<lambda>i1.
     andThen (setDest i1 d) (\<lambda>i2.
     andThen (setSrc1 i2 s1) (\<lambda>i3.
     andThen (setSrc2 i3 s2) (\<lambda>i4.
     andThen (if m \<noteq> MOD_NONE \<and> sh \<noteq> 0
              then andThen (setModifier i4 m) (\<lambda>i5. setShift i5 sh)
              else Inr i4) (\<lambda>i6.
     setOption i6 opt)))))"

definition binaryImm ::
  "Type \<Rightarrow> SizedRegister \<Rightarrow> SizedRegister \<Rightarrow> 64 word \<Rightarrow> Option \<Rightarrow> error + Insn" where
  "binaryImm t d s1 v opt =
     andThen (setType Insn_new t) (\<lambda>i1.
     andThen (setDest i1 d) (\<lambda>i2.
     andThen (setSrc1 i2 s1) (\<lambda>i3.
     andThen (setImmValue i3 v) (\<lambda>i4.
     setOption i4 opt))))"

definition moveImm :: "Type \<Rightarrow> SizedRegister \<Rightarrow> 64 word \<Rightarrow> Option \<Rightarrow> error + Insn" where
  "moveImm t d v opt =
     andThen (setType Insn_new t) (\<lambda>i1.
     andThen (setDest i1 d) (\<lambda>i2.
     andThen (setImmValue i2 v) (\<lambda>i3.
     setOption i3 opt)))"

definition branch :: "Type \<Rightarrow> 16 word \<Rightarrow> error + Insn" where
  "branch t l =
     andThen (setType Insn_new t) (\<lambda>i1. setLabel i1 l)"

section \<open>Platform (platform.h, platform.cpp)\<close>

text \<open>\<^verbatim>\<open>enum Feature\<close> of Platform: bits of the 32-bit \<open>m_features\<close> word.\<close>

definition Feature_TwoAddress :: "32 word" where "Feature_TwoAddress = 0x0001"
definition Feature_ThreeAddress :: "32 word" where "Feature_ThreeAddress = 0x0002"
definition ShiftAndOperate :: "32 word" where "ShiftAndOperate = 0x0004"
definition SplitRegisters :: "32 word" where "SplitRegisters = 0x0008"
definition RegisterPoor :: "32 word" where "RegisterPoor = 0x0010"
definition RegisterRich :: "32 word" where "RegisterRich = 0x0020"
definition ShiftToRotate :: "32 word" where "ShiftToRotate = 0x0040"
definition FunnelShift :: "32 word" where "FunnelShift = 0x0080"
definition BitClear :: "32 word" where "BitClear = 0x0100"
definition BigEndian :: "32 word" where "BigEndian = 0x0200"
definition UnaryDest :: "32 word" where "UnaryDest = 0x0400"
definition CompareAndBranch :: "32 word" where "CompareAndBranch = 0x0800"

text \<open>
  The data members of Platform, and the values its two virtual size queries return for
  the platform at hand (\<open>addressWordSize\<close> defaults to \<open>nativeWordSize\<close>).
\<close>

record Platform =
  nativeWordSize :: Size
  addressWordSize :: Size
  m_features :: "32 word"
  m_registers :: "BasicRegister list"
  m_arguments :: "BasicRegister list"
  m_sp :: BasicRegister

definition hasFeature :: "Platform \<Rightarrow> 32 word \<Rightarrow> bool" where
  "hasFeature p feature \<longleftrightarrow> (m_features p AND feature) = feature"

fun registerForNumber_loop :: "BasicRegister list \<Rightarrow> 8 word \<Rightarrow> BasicRegister" where
  "registerForNumber_loop [] num = BasicRegister_null"
| "registerForNumber_loop (it # rest) num =
     (if number it = num then it else registerForNumber_loop rest num)"

definition registerForNumber :: "Platform \<Rightarrow> 8 word \<Rightarrow> BasicRegister" where
  "registerForNumber p num = registerForNumber_loop (m_registers p) num"

definition setFeatures :: "Platform \<Rightarrow> 32 word \<Rightarrow> Platform" where
  "setFeatures p f = p\<lparr>m_features := f\<rparr>"

definition addBasicRegister :: "Platform \<Rightarrow> BasicRegister \<Rightarrow> Platform" where
  "addBasicRegister p r = p\<lparr>m_registers := m_registers p @ [r]\<rparr>"

definition addArgumentRegister :: "Platform \<Rightarrow> 8 word \<Rightarrow> Platform" where
  "addArgumentRegister p num = p\<lparr>m_arguments := m_arguments p @ [registerForNumber p num]\<rparr>"

definition setStackPointer :: "Platform \<Rightarrow> BasicRegister \<Rightarrow> Platform" where
  "setStackPointer p sp = p\<lparr>m_sp := sp\<rparr>"

text \<open>
  \<^verbatim>\<open>Platform()\<close> followed by \<^verbatim>\<open>Platform_ARM()\<close>: no features, no registers, a null stack
  pointer; the native word size of every ARM platform but ARMv8a is 32 bits.
\<close>

definition Platform_ARM :: Platform where
  "Platform_ARM =
     \<lparr>nativeWordSize = Size32, addressWordSize = Size32, m_features = 0,
      m_registers = [], m_arguments = [], m_sp = BasicRegister_null\<rparr>"

text \<open>The constructor \<^verbatim>\<open>Platform_ARMv6m::Platform_ARMv6m()\<close>.\<close>

definition Platform_ARMv6m :: Platform where
  "Platform_ARMv6m =
     (let low_flags = Address OR Data OR TwoAddress;
          high_flags = Storage;
          save_flags = CalleeSaved;
          addr_only_flags = Address;
          temp_flags = Temporary;
          p0 = setFeatures Platform_ARM
                 (Feature_TwoAddress OR SplitRegisters OR BitClear OR UnaryDest);
          p1 = foldl addBasicRegister p0
                 [reg32 3 ''r3'' low_flags,
                  reg32 2 ''r2'' low_flags,
                  reg32 1 ''r1'' low_flags,
                  reg32 0 ''r0'' low_flags,
                  reg32 4 ''r4'' (low_flags OR save_flags),
                  reg32 5 ''r5'' (low_flags OR save_flags),
                  reg32 6 ''r6'' (low_flags OR save_flags),
                  reg32 7 ''r7'' (low_flags OR save_flags),
                  reg32 8 ''r8'' (high_flags OR save_flags),
                  reg32 9 ''r9'' (high_flags OR save_flags),
                  reg32 10 ''r10'' (high_flags OR save_flags),
                  reg32 12 ''ip'' (high_flags OR temp_flags),
                  reg32 11 ''fp'' (high_flags OR save_flags),
                  reg32 14 ''lr'' (high_flags OR save_flags OR Link)];
          sp = reg32 13 ''sp'' (addr_only_flags OR StackPointer OR NoAllocate);
          p2 = addBasicRegister p1 sp;
          p3 = setStackPointer p2 sp;
          p4 = addBasicRegister p3
                 (reg32 15 ''pc'' (addr_only_flags OR ProgramCounter OR NoAllocate))
      in foldl addArgumentRegister p4 [0, 1, 2, 3])"

section \<open>Code generator (codegen.h, codegen.cpp)\<close>

record CodeGenerator =
  m_platform :: Platform
  m_insns :: "Insn list"
  m_allocationSize :: Size
  m_allocatedRegs :: "64 word"
  m_usedRegs :: "64 word"
  m_nextArgumentReg :: nat
  m_nextArgumentOffset :: nat
  m_locals :: nat

definition CodeGenerator_new :: "Platform \<Rightarrow> CodeGenerator" where
  "CodeGenerator_new p =
     \<lparr>m_platform = p, m_insns = [], m_allocationSize = nativeWordSize p,
      m_allocatedRegs = 0, m_usedRegs = 0, m_nextArgumentReg = 0,
      m_nextArgumentOffset = 0, m_locals = 0\<rparr>"

definition addInsn :: "CodeGenerator \<Rightarrow> Insn \<Rightarrow> CodeGenerator" where
  "addInsn g insn = g\<lparr>m_insns := m_insns g @ [insn]\<rparr>"

text \<open>
  The mask bit of a register, \<^verbatim>\<open>((RegMask)1) << number\<close>, with \<^verbatim>\<open>RegMask\<close> being
  \<^verbatim>\<open>uint64_t\<close> and \<^verbatim>\<open>number\<close> a \<^verbatim>\<open>uint8_t\<close>. For a number of 64 or more the C++ shift
  is undefined behaviour: the outcome is \<open>shift_out_of_range\<close>, and every function that
  computes the bit passes that outcome on.
\<close>

definition regBit :: "8 word \<Rightarrow> error + 64 word" where
  "regBit num =
     (if unat num < 64 then Inr (push_bit (unat num) 1) else Inl shift_out_of_range)"

text \<open>
  The functions of the generator mutate it in place and may throw after they have done
  so; each returns its outcome together with the generator as it is left.
\<close>

text \<open>The register search of \<^verbatim>\<open>CodeGenerator::allocate\<close> over \<^verbatim>\<open>m_platform->m_registers\<close>.\<close>

fun allocate_loop ::
  "CodeGenerator \<Rightarrow> Size \<Rightarrow> 16 word \<Rightarrow> nat \<Rightarrow> BasicRegister list \<Rightarrow> Reg \<Rightarrow> error + Reg" where
  "allocate_loop g rsize fl count [] reg = Inr reg"
| "allocate_loop g rsize fl count (it # rest) reg =
     (if numRegs reg = count then Inr reg
      else
        (case regBit (number it) of
           Inl e \<Rightarrow> Inl e
         | Inr b \<Rightarrow>
             if (m_allocatedRegs g AND b) \<noteq> 0
             then allocate_loop g rsize fl count rest reg
             else if \<not> hasSize it rsize
             then allocate_loop g rsize fl count rest reg
             else if (flags it AND fl) \<noteq> fl
             then allocate_loop g rsize fl count rest reg
             else if hasFlag it NoAllocate
             then allocate_loop g rsize fl count rest reg
             else (case addRegisterSized reg it rsize of
                     Inl e \<Rightarrow> Inl e
                   | Inr reg' \<Rightarrow> allocate_loop g rsize fl count rest reg')))"

text \<open>Marking the limbs of a register as allocated and in use, in index order.\<close>

fun mark_loop ::
  "CodeGenerator \<Rightarrow> SizedRegister list \<Rightarrow> (error + unit) \<times> CodeGenerator" where
  "mark_loop g [] = (Inr (), g)"
| "mark_loop g (sr # rest) =
     (case regBit (sr_number sr) of
        Inl e \<Rightarrow> (Inl e, g)
      | Inr b \<Rightarrow>
          mark_loop (g\<lparr>m_allocatedRegs := m_allocatedRegs g OR b,
                       m_usedRegs := m_usedRegs g OR b\<rparr>) rest)"

definition allocate :: "CodeGenerator \<Rightarrow> nat \<Rightarrow> 16 word \<Rightarrow> (error + Reg) \<times> CodeGenerator" where
  "allocate g sz fl =
     (if fl = 0 then (Inr Reg_null, g)
      else
        let rsize = (if (fl AND Address) \<noteq> 0 then addressWordSize (m_platform g)
                     else m_allocationSize g);
            limb = sizeBits rsize;
            count = ((sz + limb - 1) mod 2 ^ 64) div limb
        in case allocate_loop g rsize fl count (m_registers (m_platform g)) Reg_null of
             Inl e \<Rightarrow> (Inl e, g)
           | Inr reg \<Rightarrow>
               if numRegs reg \<noteq> count then (Inr Reg_null, g)
               else
                 (case mark_loop g (m_regs reg) of
                    (Inl e, g') \<Rightarrow> (Inl e, g')
                  | (Inr u, g') \<Rightarrow>
                      (case setSize reg sz of
                         Inl e \<Rightarrow> (Inl e, g')
                       | Inr reg' \<Rightarrow>
                           (Inr (if m_fullSize reg' \<noteq> sz then setZeroFill reg' False
                                 else reg'),
                            g'))))"

definition allocateReg ::
  "CodeGenerator \<Rightarrow> nat \<Rightarrow> 16 word \<Rightarrow> 16 word \<Rightarrow> 16 word \<Rightarrow> 16 word
     \<Rightarrow> (error + Reg) \<times> CodeGenerator" where
  "allocateReg g sz flags1 flags2 flags3 flags4 =
     (if sz = 0 then (Inl (invalid_argument ''cannot allocate zero-sized registers''), g)
      else
        (case allocate g sz flags1 of
           (Inl e, g1) \<Rightarrow> (Inl e, g1)
         | (Inr reg1, g1) \<Rightarrow>
             if \<not> isNull reg1 then (Inr reg1, g1)
             else
               (case allocate g1 sz flags2 of
                  (Inl e, g2) \<Rightarrow> (Inl e, g2)
                | (Inr reg2, g2) \<Rightarrow>
                    if \<not> isNull reg2 then (Inr reg2, g2)
                    else
                      (case allocate g2 sz flags3 of
                         (Inl e, g3) \<Rightarrow> (Inl e, g3)
                       | (Inr reg3, g3) \<Rightarrow>
                           if \<not> isNull reg3 then (Inr reg3, g3)
                           else
                             (case allocate g3 sz flags4 of
                                (Inl e, g4) \<Rightarrow> (Inl e, g4)
                              | (Inr reg4, g4) \<Rightarrow>
                                  if isNull reg4
                                  then (Inl (invalid_argument
                                              (''cannot allocate a register with '' @
                                               to_string sz @ '' bits'')), g4)
                                  else (Inr reg4, g4))))))"

text \<open>
  \<^verbatim>\<open>CodeGenerator::releaseReg(Reg &reg)\<close> returns its outcome, the generator and the value
  left in the caller's \<^verbatim>\<open>reg\<close>, which is assigned \<^verbatim>\<open>Reg()\<close> after the loop.
\<close>

fun release_loop ::
  "CodeGenerator \<Rightarrow> SizedRegister list \<Rightarrow> (error + unit) \<times> CodeGenerator" where
  "release_loop g [] = (Inr (), g)"
| "release_loop g (sr # rest) =
     (case regBit (sr_number sr) of
        Inl e \<Rightarrow> (Inl e, g)
      | Inr b \<Rightarrow> release_loop (g\<lparr>m_allocatedRegs := m_allocatedRegs g AND NOT b\<rparr>) rest)"

definition releaseReg ::
  "CodeGenerator \<Rightarrow> Reg \<Rightarrow> (error + unit) \<times> CodeGenerator \<times> Reg" where
  "releaseReg g reg =
     (case release_loop g (m_regs reg) of
        (Inl e, g') \<Rightarrow> (Inl e, g', reg)
      | (Inr u, g') \<Rightarrow> (Inr (), g', Reg_null))"

text \<open>\<^verbatim>\<open>enum ArgType\<close> and \<^verbatim>\<open>CodeGenerator::addArgument\<close>.\<close>

datatype ArgType =
    ARG_INT8 | ARG_UINT8 | ARG_INT16 | ARG_UINT16 | ARG_INT32 | ARG_UINT32
  | ARG_INT64 | ARG_UINT64 | ARG_PTR

text \<open>The \<^verbatim>\<open>switch\<close> that gives the argument's bit count; \<open>asize\<close> is the address word size.\<close>

fun argBits :: "ArgType \<Rightarrow> nat \<Rightarrow> nat" where
  "argBits ARG_INT8 asize = 8"
| "argBits ARG_UINT8 asize = 8"
| "argBits ARG_INT16 asize = 16"
| "argBits ARG_UINT16 asize = 16"
| "argBits ARG_INT32 asize = 32"
| "argBits ARG_UINT32 asize = 32"
| "argBits ARG_INT64 asize = 64"
| "argBits ARG_UINT64 asize = 64"
| "argBits ARG_PTR asize = asize"

text \<open>
  The first loop: argument registers are taken from \<^verbatim>\<open>m_platform->m_arguments\<close> while
  words remain and the list is not exhausted. It yields the register built so far and the
  number of words still to place.
\<close>

function addArgument_regs ::
  "CodeGenerator \<Rightarrow> Reg \<Rightarrow> Size \<Rightarrow> nat \<Rightarrow> (error + Reg \<times> nat) \<times> CodeGenerator" where
  "addArgument_regs g reg nsize count =
     (if count > 0 \<and> m_nextArgumentReg g < length (m_arguments (m_platform g))
      then
        let basic = m_arguments (m_platform g) ! m_nextArgumentReg g;
            g1 = g\<lparr>m_nextArgumentReg := m_nextArgumentReg g + 1\<rparr>
        in (case addRegisterSized reg basic nsize of
              Inl e \<Rightarrow> (Inl e, g1)
            | Inr reg1 \<Rightarrow>
                (case regBit (number basic) of
                   Inl e \<Rightarrow> (Inl e, g1)
                 | Inr b \<Rightarrow>
                     addArgument_regs
                       (g1\<lparr>m_allocatedRegs := m_allocatedRegs g1 OR b,
                           m_usedRegs := m_usedRegs g1 OR b\<rparr>)
                       reg1 nsize (count - 1)))
      else (Inr (reg, count), g))"
  by pat_completeness auto
termination
  by (relation "measure (\<lambda>(g, reg, nsize, count). count)") auto

text \<open>
  The second loop: each remaining word gets a freshly allocated register. The source's
  only use of \<^verbatim>\<open>offset\<close> is the comment \<^verbatim>\<open>// TODO: ldarg(temp, offset);\<close>. The read
  \<^verbatim>\<open>temp.reg(0)\<close> is an unchecked vector access.
\<close>

function addArgument_stack ::
  "CodeGenerator \<Rightarrow> ArgType \<Rightarrow> Reg \<Rightarrow> Size \<Rightarrow> nat \<Rightarrow> nat \<Rightarrow> (error + Reg) \<times> CodeGenerator" where
  "addArgument_stack g ty reg nsize count offset =
     (if count > 0
      then
        (case allocate g (sizeBits nsize) (if ty = ARG_PTR then Address else Data) of
           (Inl e, g1) \<Rightarrow> (Inl e, g1)
         | (Inr temp, g1) \<Rightarrow>
             if isNull temp
             then (Inl (invalid_argument ''cannot allocate argument register''), g1)
             else if m_regs temp = [] then (Inl vector_index_out_of_range, g1)
             else
               (case addRegister reg (m_regs temp ! 0) of
                  Inl e \<Rightarrow> (Inl e, g1)
                | Inr reg1 \<Rightarrow>
                    (case regBit (sr_number (m_regs temp ! 0)) of
                       Inl e \<Rightarrow> (Inl e, g1)
                     | Inr b \<Rightarrow>
                         addArgument_stack
                           (g1\<lparr>m_allocatedRegs := m_allocatedRegs g1 OR b,
                               m_usedRegs := m_usedRegs g1 OR b\<rparr>)
                           ty reg1 nsize (count - 1) ((offset + sizeBits nsize) mod 2 ^ 64))))
      else (Inr reg, g))"
  by pat_completeness auto
termination
  by (relation "measure (\<lambda>(g, ty, reg, nsize, count, offset). count)") auto

text \<open>\<^verbatim>\<open>(n + a - 1) & ~(a - 1)\<close> in \<^verbatim>\<open>size_t\<close> arithmetic.\<close>

definition alignUp :: "nat \<Rightarrow> nat \<Rightarrow> nat" where
  "alignUp n a = unat ((of_nat (n + a - 1) :: 64 word) AND NOT (of_nat (a - 1)))"

definition addArgument :: "CodeGenerator \<Rightarrow> ArgType \<Rightarrow> (error + Reg) \<times> CodeGenerator" where
  "addArgument g ty =
     (let nsize0 = nativeWordSize (m_platform g);
          asize = addressWordSize (m_platform g);
          size0 = argBits ty (sizeBits asize);
          size1 = (if size0 < sizeBits nsize0 then sizeBits nsize0 else size0);
          (count, nsize) =
            (if ty = ARG_PTR then (1, asize)
             else if size1 = 64 \<and> sizeBits nsize0 < sizeBits asize \<and> sizeBits asize \<ge> 64
             then (1, asize)
             else (size1 div sizeBits nsize0, nsize0))
      in case addArgument_regs g Reg_null nsize count of
           (Inl e, g1) \<Rightarrow> (Inl e, g1)
         | (Inr (reg1, count1), g1) \<Rightarrow>
             (let totalSize = count1 * sizeBits nsize;
                  offset = m_nextArgumentOffset g1
              in case addArgument_stack g1 ty reg1 nsize count1 offset of
                   (Inl e, g2) \<Rightarrow> (Inl e, g2)
                 | (Inr reg2, g2) \<Rightarrow>
                     (let g3 = g2\<lparr>m_nextArgumentOffset :=
                                   (m_nextArgumentOffset g2 +
                                    alignUp totalSize (sizeBits asize)) mod 2 ^ 64\<rparr>
                      in if hasFeature (m_platform g3) BigEndian
                         then (case reversed reg2 of
                                 Inl e \<Rightarrow> (Inl e, g3)
                               | Inr reg3 \<Rightarrow> (Inr reg3, g3))
                         else (Inr reg2, g3))))"

section \<open>ARM platforms (platform_arm.cpp)\<close>

definition isLowReg :: "SizedRegister \<Rightarrow> bool" where
  "isLowReg sr \<longleftrightarrow> sr_number sr < 8"

text \<open>
  \<^verbatim>\<open>Platform_ARM::binary(code, type, dest, src1, src2, setc)\<close> on the platform \<open>p\<close>. The
  instruction is built before \<^verbatim>\<open>addInsn\<close> is called.
\<close>

definition Platform_ARM_binary ::
  "Platform \<Rightarrow> CodeGenerator \<Rightarrow> Type \<Rightarrow> SizedRegister \<Rightarrow> SizedRegister \<Rightarrow> SizedRegister \<Rightarrow> bool
     \<Rightarrow> (error + unit) \<times> CodeGenerator" where
  "Platform_ARM_binary p code t d s1 s2 setc =
     (if hasFeature p Feature_TwoAddress \<and> sr_eq d s1 \<and> isLowReg d \<and> isLowReg s2
      then (case binary t d s1 s2 SHORT of
              Inl e \<Rightarrow> (Inl e, code)
            | Inr insn \<Rightarrow> (Inr (), addInsn code insn))
      else if hasFeature p Feature_ThreeAddress
      then (case binary t d s1 s2 (if setc then SETC else NONE) of
              Inl e \<Rightarrow> (Inl e, code)
            | Inr insn \<Rightarrow> (Inr (), addInsn code insn))
      else (Inl (invalid_argument ''invalid binary instruction''), code))"

subsection \<open>Immediate validation on ARMv8a\<close>

definition isOperandMoveConstantARMv8a :: "64 word \<Rightarrow> Size \<Rightarrow> bool" where
  "isOperandMoveConstantARMv8a v sz =
     (if sz = Size64
      then (if (v AND 0x000000000000FFFF) = v then True
            else if (v AND 0x00000000FFFF0000) = v then True
            else if (v AND 0x0000FFFF00000000) = v then True
            else if (v AND 0xFFFF000000000000) = v then True
            else False)
      else
        (let val = (ucast v :: 32 word)
         in if (val AND 0x0000FFFF) = val then True
            else if (val AND 0xFFFF0000) = val then True
            else False))"

text \<open>
  The loops of \<^verbatim>\<open>isOperandLogicalConstantARMv8a\<close>. A loop whose exit depends on the value
  alone is a partial function: \<open>None\<close> means that it does not return. Shifting
  \<^verbatim>\<open>1ULL\<close> by 64 or more is undefined in C++ and is \<open>None\<close> as well.
\<close>

partial_function (option) rotate_right_loop :: "64 word \<Rightarrow> 64 word option" where
  "rotate_right_loop v =
     (if (v AND 1) = 0 then rotate_right_loop (drop_bit 1 v OR push_bit 63 v)
      else Some v)"

declare rotate_right_loop.simps [code]

partial_function (option) rotate_left_loop :: "64 word \<Rightarrow> 64 word option" where
  "rotate_left_loop v =
     (if (v AND 0x8000000000000000) \<noteq> 0 then rotate_left_loop (push_bit 1 v OR drop_bit 63 v)
      else Some v)"

declare rotate_left_loop.simps [code]

function ones_loop :: "64 word \<Rightarrow> nat \<Rightarrow> nat option" where
  "ones_loop v ones =
     (if ones \<ge> 64 then None
      else if (v AND push_bit ones 1) \<noteq> 0 then ones_loop v (ones + 1)
      else Some ones)"
  by pat_completeness auto
termination
  by (relation "measure (\<lambda>(v, ones). 64 - ones)") auto

declare ones_loop.simps [simp del]

function zeroes_loop :: "64 word \<Rightarrow> nat \<Rightarrow> nat" where
  "zeroes_loop v zeroes =
     (if zeroes < 64 \<and> (v AND push_bit zeroes 1) = 0 then zeroes_loop v (zeroes + 1)
      else zeroes)"
  by pat_completeness auto
termination
  by (relation "measure (\<lambda>(v, zeroes). 64 - zeroes)") auto

declare zeroes_loop.simps [simp del]

partial_function (option) runs_loop :: "64 word \<Rightarrow> 64 word \<Rightarrow> nat \<Rightarrow> nat \<Rightarrow> bool option" where
  "runs_loop v run runSize offset =
     (if offset < 64
      then (if (drop_bit offset v AND (push_bit runSize 1 - 1)) \<noteq> run then Some False
            else runs_loop v run runSize (offset + runSize))
      else Some True)"

declare runs_loop.simps [code]

definition isOperandLogicalConstantARMv8a :: "64 word \<Rightarrow> Size \<Rightarrow> bool option" where
  "isOperandLogicalConstantARMv8a value0 sz =
     (let value1 = (if sz = Size32
                    then push_bit 32 value0 OR ucast (ucast value0 :: 32 word)
                    else value0)
      in if value1 = 0 \<or> value1 = NOT 0 then Some False
         else
           (case rotate_right_loop value1 of
              None \<Rightarrow> None
            | Some value2 \<Rightarrow>
                (case rotate_left_loop value2 of
                   None \<Rightarrow> None
                 | Some v \<Rightarrow>
                     (case ones_loop v 1 of
                        None \<Rightarrow> None
                      | Some ones \<Rightarrow>
                          (let zeroes = zeroes_loop v ones - ones;
                               runSize = ones + zeroes
                           in if runSize = 64 then Some True
                              else if runSize \<noteq> 2 \<and> runSize \<noteq> 4 \<and> runSize \<noteq> 8 \<and>
                                      runSize \<noteq> 16 \<and> runSize \<noteq> 32
                              then Some False
                              else runs_loop v (v AND (push_bit runSize 1 - 1))
                                     runSize runSize)))))"

text \<open>\<^verbatim>\<open>Platform_ARMv8a::validateImmediate\<close>; the \<^verbatim>\<open>||\<close> of the MOVI case short-circuits.\<close>

definition Platform_ARMv8a_validateImmediate :: "Type \<Rightarrow> 64 word \<Rightarrow> Size \<Rightarrow> bool option" where
  "Platform_ARMv8a_validateImmediate t v sz =
     (if t \<in> {ADDI, CMPI, CMPNI, SUBI}
      then Some ((v AND 0x00000FFF) = v \<or> (v AND 0x00FFF000) = v)
      else if t \<in> {ANDI, ORI, XORI}
      then isOperandLogicalConstantARMv8a v sz
      else if t = MOVI
      then (if isOperandMoveConstantARMv8a v sz then Some True
            else isOperandLogicalConstantARMv8a v sz)
      else if t = MOVN
      then Some (isOperandMoveConstantARMv8a v sz)
      else if t \<in> {ASRI, LSLI, LSRI, ROLI, RORI}
      then Some (if sz = Size64 then v < 64 else v < 32)
      else if t \<in> {LD8, LD8S, ST8}
      then Some (v \<le> 4095)
      else if t \<in> {LD16, LD16S, ST16}
      then Some ((v AND 1) = 0 \<and> v \<le> 8190)
      else if t \<in> {LD32, LD32S, ST32}
      then Some ((v AND 3) = 0 \<and> v \<le> 16380)
      else if t \<in> {LD64, ST64}
      then Some ((v AND 7) = 0 \<and> v \<le> 32760)
      else Some False)"

section \<open>Notions of the specification\<close>

text \<open>
  A sequence of \<^verbatim>\<open>allocateReg\<close> and \<^verbatim>\<open>releaseReg\<close> calls on one generator. A call that
  throws leaves the generator as the throw found it, and the sequence goes on. A call
  that runs into undefined behaviour ends the sequence with no generator at all.
\<close>

datatype call =
    AllocateReg nat "16 word" "16 word" "16 word" "16 word"
  | ReleaseReg Reg

fun perform :: "CodeGenerator \<Rightarrow> call \<Rightarrow> CodeGenerator option" where
  "perform g (AllocateReg sz f1 f2 f3 f4) =
     (case allocateReg g sz f1 f2 f3 f4 of
        (Inl e, g') \<Rightarrow> if undefinedBehaviour e then None else Some g'
      | (Inr r, g') \<Rightarrow> Some g')"
| "perform g (ReleaseReg reg) =
     (case releaseReg g reg of
        (Inl e, g', reg') \<Rightarrow> if undefinedBehaviour e then None else Some g'
      | (Inr u, g', reg') \<Rightarrow> Some g')"

fun performAll :: "CodeGenerator \<Rightarrow> call list \<Rightarrow> CodeGenerator option" where
  "performAll g [] = Some g"
| "performAll g (c # calls) =
     (case perform g c of
        None \<Rightarrow> None
      | Some g' \<Rightarrow> performAll g' calls)"

text \<open>
  The limb width \<open>L\<close> of an allocation with the flags \<open>fl\<close>: the current allocation size,
  or the address word size when the Address flag is requested; and the number of limbs
  that \<open>allocate\<close> computes from it.
\<close>

definition limbWidth :: "CodeGenerator \<Rightarrow> 16 word \<Rightarrow> Size" where
  "limbWidth g fl = (if (fl AND Address) \<noteq> 0 then addressWordSize (m_platform g)
                     else m_allocationSize g)"

definition limbCount :: "CodeGenerator \<Rightarrow> nat \<Rightarrow> 16 word \<Rightarrow> nat" where
  "limbCount g sz fl =
     ((sz + sizeBits (limbWidth g fl) - 1) mod 2 ^ 64) div sizeBits (limbWidth g fl)"

text \<open>
  The bitmask-logical immediates in the words of the specification: \<open>Y > 0\<close> consecutive
  ones followed by \<open>X > 0\<close> consecutive zeros, \<open>X + Y\<close> a power of two, the pattern tiled
  across the 64-bit word and the word rotated. \<open>tiled Y X\<close> has bit \<open>i\<close> set exactly when
  \<open>i mod (X + Y) < Y\<close>.
\<close>

definition tiled :: "nat \<Rightarrow> nat \<Rightarrow> 64 word" where
  "tiled Y X = horner_sum of_bool 2 (map (\<lambda>i. i mod (X + Y) < Y) [0..<64])"

definition bitmaskLogical :: "64 word \<Rightarrow> bool" where
  "bitmaskLogical w \<longleftrightarrow>
     (\<exists>Y X r. 0 < Y \<and> 0 < X \<and> (\<exists>k. X + Y = 2 ^ k) \<and> X + Y \<le> 64 \<and>
              w = word_rotr r (tiled Y X))"

text \<open>\<open>w\<close> is \<open>u\<close> rotated: bit \<open>i\<close> of \<open>w\<close> is bit \<open>i + k\<close> of \<open>u\<close>, modulo 64, for some \<open>k\<close>.\<close>

definition rotationOf :: "64 word \<Rightarrow> 64 word \<Rightarrow> bool" where
  "rotationOf u w \<longleftrightarrow> (\<exists>k. \<forall>i < 64. bit w i \<longleftrightarrow> bit u ((i + k) mod 64))"

text \<open>The operand as the specification reads it: a 32-bit value is duplicated into both halves.\<close>

definition operand64 :: "64 word \<Rightarrow> Size \<Rightarrow> 64 word" where
  "operand64 v sz =
     (if sz = Size32 then word_cat (ucast v :: 32 word) (ucast v :: 32 word) else v)"

section \<open>Concrete values used in the examples\<close>

text \<open>
  The low registers r0, r1, r2, r3 and r4 of ARMv6m at their 32-bit
  size, as \<open>Platform_ARMv6m\<close> declares them, and the one-limb register made of r0.
\<close>

definition r0_32 :: SizedRegister where
  "r0_32 = \<lparr>m_reg = reg32 0 ''r0'' (Address OR Data OR TwoAddress), m_regSize = Size32\<rparr>"

definition r1_32 :: SizedRegister where
  "r1_32 = \<lparr>m_reg = reg32 1 ''r1'' (Address OR Data OR TwoAddress), m_regSize = Size32\<rparr>"

definition r2_32 :: SizedRegister where
  "r2_32 = \<lparr>m_reg = reg32 2 ''r2'' (Address OR Data OR TwoAddress), m_regSize = Size32\<rparr>"

definition r4_32 :: SizedRegister where
  "r4_32 =
     \<lparr>m_reg = reg32 4 ''r4'' (Address OR Data OR TwoAddress OR CalleeSaved),
      m_regSize = Size32\<rparr>"

definition Reg_r0 :: Reg where
  "Reg_r0 = \<lparr>m_size = 32, m_fullSize = 32, m_zeroFill = True, m_regs = [r0_32]\<rparr>"

definition r3_32 :: SizedRegister where
  "r3_32 = \<lparr>m_reg = reg32 3 ''r3'' (Address OR Data OR TwoAddress), m_regSize = Size32\<rparr>"

text \<open>The stack pointer of ARMv6m, which is marked NoAllocate.\<close>

definition sp_ARMv6m :: BasicRegister where
  "sp_ARMv6m = reg32 13 ''sp'' (Address OR StackPointer OR NoAllocate)"

text \<open>The 40-bit register in r3 and r2 that a fresh ARMv6m generator allocates.\<close>

definition Reg_r3r2_40 :: Reg where
  "Reg_r3r2_40 = \<lparr>m_size = 40, m_fullSize = 64, m_zeroFill = False, m_regs = [r3_32, r2_32]\<rparr>"

text \<open>
  A 64-bit register in r3 and r2 (in this order) after \<^verbatim>\<open>setZeroFill(false)\<close>: its size
  equals its full size.
\<close>

definition Reg_r3r2_64 :: Reg where
  "Reg_r3r2_64 =
     setZeroFill \<lparr>m_size = 64, m_fullSize = 64, m_zeroFill = True, m_regs = [r3_32, r2_32]\<rparr>
       False"

text \<open>
  A platform built with \<^verbatim>\<open>addBasicRegister\<close>, which checks nothing, in which two
  registers have the number 5; the second is marked NoAllocate.
\<close>

definition Platform_sharedNumber :: Platform where
  "Platform_sharedNumber =
     addBasicRegister (addBasicRegister Platform_ARM (reg32 5 ''r5'' Data))
       (reg32 5 ''x5'' (Data OR NoAllocate))"

section \<open>Properties of the register model\<close>

lemma sizeBits_pos: "0 < sizeBits sz"
  by (cases sz) simp_all

lemma sizeBits_le: "sizeBits sz \<le> 64"
  by (cases sz) simp_all

lemma sr_number_make [simp]: "sr_number \<lparr>m_reg = it, m_regSize = rsize\<rparr> = number it"
  by (simp add: sr_number_def)

subsection \<open>Subsets\<close>

text \<open>
  The copying loop of \<open>subset\<close> with the upper bound \<^verbatim>\<open>m_regs.size()\<close> always reads one
  element past the end of the vector.
\<close>

lemma subset_loop_overrun:
  "from \<le> length regs \<Longrightarrow>
   subset_loop regs result from (length regs) = Inl vector_index_out_of_range"
proof (induction "length regs - from" arbitrary: "from" result)
  case 0
  then have "from = length regs" by simp
  then show ?case by simp
next
  case (Suc n)
  then have lt: "from < length regs" by simp
  have "subset_loop regs result from (length regs) =
          subset_loop regs (result\<lparr>m_regs := m_regs result @ [regs ! from]\<rparr>) (from + 1)
            (length regs)"
    using lt by simp
  also have "\<dots> = Inl vector_index_out_of_range"
    using Suc.hyps(1) [of "from + 1"] Suc.hyps(2) lt by simp
  finally show ?case .
qed

lemma subset_whole_overruns:
  assumes "m_regs r \<noteq> []" and "0 < m_size r" and "m_size r < 2 ^ 64"
  shows "subset r 0 (m_size r) = Inl vector_index_out_of_range"
  using assms by (simp add: subset_def Let_def subset_loop_overrun del: subset_loop.simps)

text \<open>
  Claim C2 says that \<open>subset r 0 (size r)\<close> returns \<open>r\<close> itself, same limbs, sizes and
  zero-fill flag, without an error, for every register with at least one limb. On the
  one-limb register that \<^verbatim>\<open>Reg(r0)\<close> builds, the source instead reads \<^verbatim>\<open>m_regs[1]\<close> of a
  one-element vector: the loop \<^verbatim>\<open>while (from <= to)\<close> runs with \<^verbatim>\<open>to = m_regs.size()\<close>.
\<close>

theorem subset_whole_register_overruns:
  "addRegisterSized Reg_null (reg32 0 ''r0'' (Address OR Data OR TwoAddress)) Size32 = Inr Reg_r0
   \<and> subset Reg_r0 0 (m_size Reg_r0) = Inl vector_index_out_of_range"
  by (simp add: addRegisterSized_def SizedRegister_new_def addRegister_def Reg_null_def
      Reg_r0_def r0_32_def reg32_def BasicRegister_null_def subset_def Let_def)

text \<open>
  Claim C10: when the register has no limbs or \<open>start\<close> is not below its size, \<open>subset\<close>
  returns the empty null register (size 0, no limbs) and raises nothing, whatever
  \<open>start\<close> and \<open>len\<close> are, also for a \<open>start\<close> that is not a multiple of the limb size.
\<close>

theorem subset_past_end_is_null:
  "m_regs r = [] \<or> start \<ge> m_size r \<Longrightarrow>
   subset r start len = Inr Reg_null \<and> isNull Reg_null \<and> numRegs Reg_null = 0"
  by (auto simp add: subset_def Let_def isNull_def numRegs_def Reg_null_def)

theorem subset_past_end_is_null_witness:
  "(m_regs Reg_r0 = [] \<or> 33 \<ge> m_size Reg_r0) \<and> 33 mod limbSize Reg_r0 \<noteq> 0 \<and>
   subset Reg_r0 33 5 = Inr Reg_null \<and> isNull Reg_null \<and> numRegs Reg_null = 0"
  using subset_past_end_is_null [of Reg_r0 33 5]
  by (simp add: Reg_r0_def limbSize_def r0_32_def)

subsection \<open>Reversal\<close>

lemma reversed_loop_take:
  "i \<le> length regs \<Longrightarrow>
   reversed_loop regs result i = result\<lparr>m_regs := m_regs result @ rev (take i regs)\<rparr>"
proof (induction i arbitrary: result)
  case 0
  then show ?case by simp
next
  case (Suc i)
  then have "take (Suc i) regs = take i regs @ [regs ! i]"
    by (simp add: take_Suc_conv_app_nth)
  with Suc show ?case by simp
qed

lemma reversed_eq:
  "m_size r = m_fullSize r \<Longrightarrow>
   reversed r = Inr \<lparr>m_size = m_size r, m_fullSize = m_fullSize r, m_zeroFill = True,
                     m_regs = rev (m_regs r)\<rparr>"
  by (simp add: reversed_def reversed_loop_take Reg_null_def)

text \<open>
  Claim C9, amended: for every register whose size equals its full size, reversing twice
  succeeds and gives the same limbs in the same order, the same size and the same full
  size; the zero-fill flag of the result is true whatever it was before, since
  \<open>reversed\<close> sets it.
\<close>

theorem reversed_twice:
  "m_size r = m_fullSize r \<Longrightarrow> andThen (reversed r) reversed = Inr (r\<lparr>m_zeroFill := True\<rparr>)"
  by (simp add: reversed_eq andThen_def)

theorem reversed_twice_witness:
  "m_size Reg_r3r2_64 = m_fullSize Reg_r3r2_64 \<and> \<not> m_zeroFill Reg_r3r2_64 \<and>
   m_regs Reg_r3r2_64 = [r3_32, r2_32] \<and> r3_32 \<noteq> r2_32 \<and>
   reversed Reg_r3r2_64 =
     Inr \<lparr>m_size = 64, m_fullSize = 64, m_zeroFill = True, m_regs = [r2_32, r3_32]\<rparr> \<and>
   andThen (reversed Reg_r3r2_64) reversed =
     Inr \<lparr>m_size = 64, m_fullSize = 64, m_zeroFill = True, m_regs = [r3_32, r2_32]\<rparr>"
proof -
  have r: "reversed Reg_r3r2_64 =
     Inr \<lparr>m_size = 64, m_fullSize = 64, m_zeroFill = True, m_regs = [r2_32, r3_32]\<rparr>"
    by (simp add: Reg_r3r2_64_def setZeroFill_def reversed_def Reg_null_def)
  have d: "r3_32 \<noteq> r2_32"
    by (simp add: r3_32_def r2_32_def reg32_def BasicRegister_null_def)
  show ?thesis
    using reversed_twice [of Reg_r3r2_64] r d by (simp add: Reg_r3r2_64_def setZeroFill_def)
qed

text \<open>
  The claim as stated, with the zero-fill flag kept, fails on the register r0 after
  \<^verbatim>\<open>setZeroFill(false)\<close>: its size equals its full size, and reversing it twice does not
  give it back.
\<close>

theorem reversed_twice_zeroFill_counterexample:
  "m_size (setZeroFill Reg_r0 False) = m_fullSize (setZeroFill Reg_r0 False) \<and>
   andThen (reversed (setZeroFill Reg_r0 False)) reversed \<noteq> Inr (setZeroFill Reg_r0 False)"
  by (simp add: Reg_r0_def setZeroFill_def reversed_def andThen_def Reg_null_def)

section \<open>Properties of instruction records and of the ARM hooks\<close>

text \<open>
  Claim C1 says that every constructor and mutator of an instruction record succeeds and
  stores its value. In the source every mutator stores through the pointer returned by
  \<^verbatim>\<open>Insn::write\<close>, which is null, so each of them, and each constructor (whose first step
  is \<^verbatim>\<open>setType\<close>), dereferences a null pointer, for every opcode and all operands.
\<close>

theorem insn_constructors_dereference_null:
  "bare t = Inl null_pointer_dereference \<and>
   unary t d s opt = Inl null_pointer_dereference \<and>
   binary t d s1 s2 opt = Inl null_pointer_dereference \<and>
   binaryMod t d s1 s2 m sh opt = Inl null_pointer_dereference \<and>
   binaryImm t d s1 v opt = Inl null_pointer_dereference \<and>
   moveImm t d v opt = Inl null_pointer_dereference \<and>
   branch t l = Inl null_pointer_dereference \<and>
   setType insn t = Inl null_pointer_dereference"
  by (simp add: bare_def unary_def binary_def binaryMod_def binaryImm_def moveImm_def
      branch_def setType_def store_def Insn_write_def andThen_def)

lemma ARMv6m_features: "m_features Platform_ARMv6m = 0x509"
  by (simp add: Platform_ARMv6m_def Let_def setFeatures_def addBasicRegister_def
      setStackPointer_def addArgumentRegister_def Platform_ARM_def
      Feature_TwoAddress_def SplitRegisters_def BitClear_def UnaryDest_def)

text \<open>
  When the two-address path is taken (destination equal to \<open>src1\<close>, destination and \<open>src2\<close>
  low registers), the hook builds the \<open>SHORT\<close> record before it appends it, and building
  it stores through the null pointer of \<^verbatim>\<open>Insn::write\<close>: nothing is appended.
\<close>

lemma two_address_short_form_dereferences_null:
  assumes "hasFeature p Feature_TwoAddress" and "sr_eq d s1" and "isLowReg d" and "isLowReg s2"
  shows "Platform_ARM_binary p code t d s1 s2 setc = (Inl null_pointer_dereference, code)"
  using assms
  by (simp add: Platform_ARM_binary_def binary_def setType_def store_def Insn_write_def
      andThen_def)

text \<open>
  Claim C4, amended: on a platform that has the two-address feature and not the
  three-address feature, the binary hook called with a destination different from
  \<open>src1\<close> appends nothing and fails with \<^verbatim>\<open>invalid_argument("invalid binary instruction")\<close>.
\<close>

theorem two_address_binary_rejects:
  assumes "hasFeature p Feature_TwoAddress" and "\<not> hasFeature p Feature_ThreeAddress"
    and "\<not> sr_eq d s1"
  shows "Platform_ARM_binary p code t d s1 s2 setc =
           (Inl (invalid_argument ''invalid binary instruction''), code)"
  using assms by (simp add: Platform_ARM_binary_def)

theorem two_address_binary_rejects_witness:
  "hasFeature Platform_ARMv6m Feature_TwoAddress \<and>
   \<not> hasFeature Platform_ARMv6m Feature_ThreeAddress \<and>
   \<not> sr_eq r0_32 r1_32 \<and>
   Platform_ARM_binary Platform_ARMv6m (CodeGenerator_new Platform_ARMv6m) ADD
       r0_32 r1_32 r2_32 False =
     (Inl (invalid_argument ''invalid binary instruction''), CodeGenerator_new Platform_ARMv6m)"
proof -
  have f: "hasFeature Platform_ARMv6m Feature_TwoAddress"
    "\<not> hasFeature Platform_ARMv6m Feature_ThreeAddress"
    by (simp_all add: hasFeature_def ARMv6m_features Feature_TwoAddress_def
        Feature_ThreeAddress_def)
  have r: "\<not> sr_eq r0_32 r1_32"
    by (simp add: sr_eq_def r0_32_def r1_32_def reg32_def BasicRegister_null_def)
  show ?thesis
    using f r
      two_address_binary_rejects [OF f r, of "CodeGenerator_new Platform_ARMv6m"
        ADD r2_32 False]
    by simp
qed

text \<open>
  The claim as stated fails on ARMv6m, whose features have the two-address flag and not
  the three-address flag: an ADD with destination r0 and sources r1 and r2 is not lowered
  into a move and an in-place operation; the hook throws and the buffer stays empty.
\<close>

theorem two_address_binary_counterexample:
  "hasFeature Platform_ARMv6m Feature_TwoAddress \<and>
   \<not> hasFeature Platform_ARMv6m Feature_ThreeAddress \<and>
   \<not> sr_eq r0_32 r1_32 \<and>
   Platform_ARM_binary Platform_ARMv6m (CodeGenerator_new Platform_ARMv6m) ADD r0_32 r1_32 r2_32
       False =
     (Inl (invalid_argument ''invalid binary instruction''), CodeGenerator_new Platform_ARMv6m) \<and>
   m_insns (CodeGenerator_new Platform_ARMv6m) = []"
  by (simp add: Platform_ARM_binary_def hasFeature_def ARMv6m_features Feature_TwoAddress_def
      Feature_ThreeAddress_def sr_eq_def r0_32_def r1_32_def reg32_def BasicRegister_null_def
      CodeGenerator_new_def)

section \<open>Properties of the code generator\<close>

subsection \<open>Masks\<close>

lemma regBit_Inr:
  assumes "regBit k = Inr b"
  shows "unat k < 64" and "b = push_bit (unat k) 1" and "bit b n \<longleftrightarrow> n = unat k"
  using assms by (auto simp add: regBit_def bit_simps split: if_splits)

lemma regBit_defined: "unat k < 64 \<Longrightarrow> regBit k = Inr (push_bit (unat k) 1)"
  by (simp add: regBit_def)

lemma regBit_Inl: "regBit k = Inl e \<Longrightarrow> e = shift_out_of_range \<and> 64 \<le> unat k"
  by (auto simp add: regBit_def split: if_splits)

lemma bit_mask_bit: "k < 64 \<Longrightarrow> bit (push_bit k 1 :: 64 word) n \<longleftrightarrow> n = k"
  by (auto simp add: bit_simps)

lemma regBit_free:
  assumes "regBit k = Inr b"
  shows "(a AND b) = 0 \<longleftrightarrow> \<not> bit a (unat k)"
proof
  assume z: "a AND b = 0"
  show "\<not> bit a (unat k)"
  proof
    assume "bit a (unat k)"
    then have "bit (a AND b) (unat k)"
      using regBit_Inr(3) [OF assms, of "unat k"] by (simp add: bit_and_iff)
    with z show False by simp
  qed
next
  assume n: "\<not> bit a (unat k)"
  show "a AND b = 0"
  proof (rule bit_eqI)
    fix i
    show "bit (a AND b) i \<longleftrightarrow> bit (0 :: 64 word) i"
      using n regBit_Inr(3) [OF assms, of i] by (auto simp add: bit_and_iff)
  qed
qed

lemma mark_loop_frame:
  "\<exists>a u. snd (mark_loop g srs) = g\<lparr>m_allocatedRegs := a, m_usedRegs := u\<rparr>"
proof (induction srs arbitrary: g)
  case Nil
  have "snd (mark_loop g []) =
        g\<lparr>m_allocatedRegs := m_allocatedRegs g, m_usedRegs := m_usedRegs g\<rparr>"
    by simp
  then show ?case by blast
next
  case (Cons sr srs)
  show ?case
  proof (cases "regBit (sr_number sr)")
    case (Inl e)
    then have "snd (mark_loop g (sr # srs)) =
        g\<lparr>m_allocatedRegs := m_allocatedRegs g, m_usedRegs := m_usedRegs g\<rparr>"
      by simp
    then show ?thesis by blast
  next
    case (Inr b)
    let ?g = "g\<lparr>m_allocatedRegs := m_allocatedRegs g OR b, m_usedRegs := m_usedRegs g OR b\<rparr>"
    from Cons.IH [of ?g] obtain a u where
      "snd (mark_loop ?g srs) = ?g\<lparr>m_allocatedRegs := a, m_usedRegs := u\<rparr>"
      by blast
    then have "snd (mark_loop g (sr # srs)) = g\<lparr>m_allocatedRegs := a, m_usedRegs := u\<rparr>"
      using Inr by simp
    then show ?thesis by blast
  qed
qed

text \<open>
  When every limb has a number below 64, marking succeeds and sets exactly the bits of the
  limbs, in both masks.
\<close>

lemma mark_loop_marks:
  assumes "\<forall>sr \<in> set srs. unat (sr_number sr) < 64"
  shows "fst (mark_loop g srs) = Inr () \<and>
         (bit (m_allocatedRegs (snd (mark_loop g srs))) n \<longleftrightarrow>
            bit (m_allocatedRegs g) n \<or> (\<exists>sr \<in> set srs. n = unat (sr_number sr))) \<and>
         (bit (m_usedRegs (snd (mark_loop g srs))) n \<longleftrightarrow>
            bit (m_usedRegs g) n \<or> (\<exists>sr \<in> set srs. n = unat (sr_number sr)))"
  using assms
proof (induction srs arbitrary: g)
  case Nil
  then show ?case by simp
next
  case (Cons sr srs)
  have k: "unat (sr_number sr) < 64"
    using Cons.prems by simp
  obtain b where b: "regBit (sr_number sr) = Inr b"
    using regBit_defined [OF k] by blast
  let ?g = "g\<lparr>m_allocatedRegs := m_allocatedRegs g OR b, m_usedRegs := m_usedRegs g OR b\<rparr>"
  have m: "mark_loop g (sr # srs) = mark_loop ?g srs"
    using b by simp
  have rest: "\<forall>sr \<in> set srs. unat (sr_number sr) < 64"
    using Cons.prems by simp
  show ?case
    unfolding m
    using Cons.IH [OF rest, of ?g] regBit_Inr(3) [OF b, of n]
    by (auto simp add: bit_or_iff)
qed

lemma release_loop_frame:
  "\<exists>a. snd (release_loop g srs) = g\<lparr>m_allocatedRegs := a\<rparr>"
proof (induction srs arbitrary: g)
  case Nil
  have "snd (release_loop g []) = g\<lparr>m_allocatedRegs := m_allocatedRegs g\<rparr>"
    by simp
  then show ?case by blast
next
  case (Cons sr srs)
  show ?case
  proof (cases "regBit (sr_number sr)")
    case (Inl e)
    then have "snd (release_loop g (sr # srs)) = g\<lparr>m_allocatedRegs := m_allocatedRegs g\<rparr>"
      by simp
    then show ?thesis by blast
  next
    case (Inr b)
    let ?g = "g\<lparr>m_allocatedRegs := m_allocatedRegs g AND NOT b\<rparr>"
    from Cons.IH [of ?g] obtain a where
      "snd (release_loop ?g srs) = ?g\<lparr>m_allocatedRegs := a\<rparr>"
      by blast
    then have "snd (release_loop g (sr # srs)) = g\<lparr>m_allocatedRegs := a\<rparr>"
      using Inr by simp
    then show ?thesis by blast
  qed
qed

text \<open>Releasing sets no bit, whatever its outcome.\<close>

lemma release_loop_shrinks:
  "bit (m_allocatedRegs (snd (release_loop g srs))) n \<Longrightarrow> bit (m_allocatedRegs g) n"
proof (induction srs arbitrary: g)
  case Nil
  then show ?case by simp
next
  case (Cons sr srs)
  show ?case
  proof (cases "regBit (sr_number sr)")
    case (Inl e)
    with Cons.prems show ?thesis by simp
  next
    case (Inr b)
    let ?g = "g\<lparr>m_allocatedRegs := m_allocatedRegs g AND NOT b\<rparr>"
    have "bit (m_allocatedRegs (snd (release_loop ?g srs))) n"
      using Cons.prems Inr by simp
    from Cons.IH [OF this] show ?thesis by (simp add: bit_and_iff)
  qed
qed

text \<open>
  When every limb has a number below 64, releasing succeeds and clears exactly the bits of
  the limbs.
\<close>

lemma release_loop_clears:
  assumes "\<forall>sr \<in> set srs. unat (sr_number sr) < 64"
  shows "fst (release_loop g srs) = Inr () \<and>
         (bit (m_allocatedRegs (snd (release_loop g srs))) n \<longleftrightarrow>
            bit (m_allocatedRegs g) n \<and> (\<forall>sr \<in> set srs. n \<noteq> unat (sr_number sr)))"
  using assms
proof (induction srs arbitrary: g)
  case Nil
  then show ?case by simp
next
  case (Cons sr srs)
  have k: "unat (sr_number sr) < 64"
    using Cons.prems by simp
  obtain b where b: "regBit (sr_number sr) = Inr b"
    using regBit_defined [OF k] by blast
  let ?g = "g\<lparr>m_allocatedRegs := m_allocatedRegs g AND NOT b\<rparr>"
  have m: "release_loop g (sr # srs) = release_loop ?g srs"
    using b by simp
  have rest: "\<forall>sr \<in> set srs. unat (sr_number sr) < 64"
    using Cons.prems by simp
  have nb: "bit (m_allocatedRegs g AND NOT b) n \<longleftrightarrow>
            bit (m_allocatedRegs g) n \<and> n \<noteq> unat (sr_number sr)"
    using regBit_Inr(3) [OF b, of n] bit_imp_possible_bit [of "m_allocatedRegs g" n]
    by (auto simp add: bit_and_iff bit_not_iff)
  show ?case
    unfolding m
    using Cons.IH [OF rest, of ?g] nb by auto
qed

text \<open>A limb with a number of 64 or more makes the release an undefined shift.\<close>

lemma release_loop_undefined:
  assumes "\<exists>sr \<in> set srs. 64 \<le> unat (sr_number sr)"
  shows "fst (release_loop g srs) = Inl shift_out_of_range"
  using assms
proof (induction srs arbitrary: g)
  case Nil
  then show ?case by simp
next
  case (Cons sr srs)
  show ?case
  proof (cases "unat (sr_number sr) < 64")
    case True
    then have "\<exists>sr \<in> set srs. 64 \<le> unat (sr_number sr)"
      using Cons.prems by auto
    from Cons.IH [OF this] show ?thesis
      using regBit_defined [OF True] by simp
  next
    case False
    then show ?thesis by (simp add: regBit_def)
  qed
qed

lemma releaseReg_state:
  "fst (snd (releaseReg g reg)) = snd (release_loop g (m_regs reg))"
  by (cases "release_loop g (m_regs reg)") (auto simp add: releaseReg_def split: sum.splits)

lemma releaseReg_defined:
  assumes "\<forall>sr \<in> set (m_regs reg). unat (sr_number sr) < 64"
  shows "releaseReg g reg = (Inr (), snd (release_loop g (m_regs reg)), Reg_null)"
proof -
  obtain res g' where r: "release_loop g (m_regs reg) = (res, g')"
    by (cases "release_loop g (m_regs reg)")
  have "res = Inr ()"
    using release_loop_clears [OF assms, of g] r by simp
  with r show ?thesis by (simp add: releaseReg_def)
qed

lemma releaseReg_undefined:
  assumes "\<exists>sr \<in> set (m_regs reg). 64 \<le> unat (sr_number sr)"
  shows "fst (releaseReg g reg) = Inl shift_out_of_range"
proof -
  obtain res g' where r: "release_loop g (m_regs reg) = (res, g')"
    by (cases "release_loop g (m_regs reg)")
  have "res = Inl shift_out_of_range"
    using release_loop_undefined [OF assms, of g] r by simp
  with r show ?thesis by (simp add: releaseReg_def)
qed


subsection \<open>The register search\<close>

lemma addRegisterSized_Inr:
  assumes "addRegisterSized reg it rsize = Inr reg'"
  shows "m_regs reg' = m_regs reg @ [\<lparr>m_reg = it, m_regSize = rsize\<rparr>]"
    and "m_size reg' = (m_size reg + sizeBits rsize) mod 2 ^ 64"
    and "m_fullSize reg' = (m_fullSize reg + sizeBits rsize) mod 2 ^ 64"
    and "m_zeroFill reg' = m_zeroFill reg"
    and "number it \<notin> sr_number ` set (m_regs reg)"
  using assms
  by (auto simp add: addRegisterSized_def SizedRegister_new_def addRegister_def sr_number_def
      split: if_splits sum.splits)

lemma addRegisterSized_error:
  "addRegisterSized reg it rsize = Inl e \<Longrightarrow> \<not> undefinedBehaviour e"
  by (auto simp add: addRegisterSized_def SizedRegister_new_def addRegister_def
      simp del: to_string.simps split: if_splits sum.splits)

text \<open>One round of the search on the register \<open>it\<close>, when the search as a whole succeeds.\<close>

lemma allocate_loop_step:
  assumes "allocate_loop g rsize fl count (it # rest) reg0 = Inr reg"
  shows "(numRegs reg0 = count \<and> reg = reg0) \<or>
         (unat (number it) < 64 \<and> allocate_loop g rsize fl count rest reg0 = Inr reg) \<or>
         (\<exists>reg1. unat (number it) < 64 \<and> \<not> bit (m_allocatedRegs g) (unat (number it)) \<and>
            \<not> hasFlag it NoAllocate \<and> addRegisterSized reg0 it rsize = Inr reg1 \<and>
            allocate_loop g rsize fl count rest reg1 = Inr reg)"
proof (cases "numRegs reg0 = count")
  case True
  with assms show ?thesis by simp
next
  case nc: False
  show ?thesis
  proof (cases "regBit (number it)")
    case (Inl e)
    with assms nc show ?thesis by simp
  next
    case (Inr b)
    note k = regBit_Inr(1) [OF Inr]
    note f = regBit_free [OF Inr, of "m_allocatedRegs g"]
    show ?thesis
    proof (cases "(m_allocatedRegs g AND b) \<noteq> 0 \<or> \<not> hasSize it rsize \<or>
        (flags it AND fl) \<noteq> fl \<or> hasFlag it NoAllocate")
      case True
      with assms nc Inr have "allocate_loop g rsize fl count rest reg0 = Inr reg"
        by (auto split: if_splits)
      with k show ?thesis by simp
    next
      case False
      with assms nc Inr obtain reg1 where
        "addRegisterSized reg0 it rsize = Inr reg1"
        "allocate_loop g rsize fl count rest reg1 = Inr reg"
        by (auto split: sum.splits)
      with k f False show ?thesis by auto
    qed
  qed
qed

lemma allocate_loop_limbs:
  assumes "allocate_loop g rsize fl count regs reg0 = Inr reg"
  shows "\<exists>new. m_regs reg = m_regs reg0 @ new \<and>
           (\<forall>sr \<in> set new. m_reg sr \<in> set regs \<and> m_regSize sr = rsize \<and>
              unat (sr_number sr) < 64 \<and>
              \<not> bit (m_allocatedRegs g) (unat (sr_number sr)) \<and>
              \<not> hasFlag (m_reg sr) NoAllocate)"
  using assms
proof (induction regs arbitrary: reg0)
  case Nil
  then show ?case by simp
next
  case (Cons it rest)
  from allocate_loop_step [OF Cons.prems] show ?case
  proof (elim disjE exE conjE)
    assume "reg = reg0"
    then show ?thesis by simp
  next
    assume "allocate_loop g rsize fl count rest reg0 = Inr reg"
    from Cons.IH [OF this] show ?thesis by auto
  next
    fix reg1
    assume k: "unat (number it) < 64"
      and free: "\<not> bit (m_allocatedRegs g) (unat (number it))"
      and na: "\<not> hasFlag it NoAllocate"
      and a: "addRegisterSized reg0 it rsize = Inr reg1"
      and l: "allocate_loop g rsize fl count rest reg1 = Inr reg"
    from Cons.IH [OF l] obtain new where
      n: "m_regs reg = m_regs reg1 @ new"
      "\<forall>sr \<in> set new. m_reg sr \<in> set rest \<and> m_regSize sr = rsize \<and>
         unat (sr_number sr) < 64 \<and>
         \<not> bit (m_allocatedRegs g) (unat (sr_number sr)) \<and>
         \<not> hasFlag (m_reg sr) NoAllocate"
      by blast
    have "m_regs reg = m_regs reg0 @ (\<lparr>m_reg = it, m_regSize = rsize\<rparr> # new)"
      using n(1) addRegisterSized_Inr(1) [OF a] by simp
    moreover have "\<forall>sr \<in> set (\<lparr>m_reg = it, m_regSize = rsize\<rparr> # new).
        m_reg sr \<in> set (it # rest) \<and> m_regSize sr = rsize \<and>
        unat (sr_number sr) < 64 \<and>
        \<not> bit (m_allocatedRegs g) (unat (sr_number sr)) \<and>
        \<not> hasFlag (m_reg sr) NoAllocate"
      using n(2) k free na by (auto simp add: sr_number_def)
    ultimately show ?thesis by blast
  qed
qed

lemma allocate_loop_shape:
  assumes "allocate_loop g rsize fl count regs reg0 = Inr reg"
    and "distinct (map sr_number (m_regs reg0))"
    and "m_size reg0 = (length (m_regs reg0) * sizeBits rsize) mod 2 ^ 64"
    and "m_fullSize reg0 = (length (m_regs reg0) * sizeBits rsize) mod 2 ^ 64"
  shows "distinct (map sr_number (m_regs reg)) \<and>
         m_size reg = (length (m_regs reg) * sizeBits rsize) mod 2 ^ 64 \<and>
         m_fullSize reg = (length (m_regs reg) * sizeBits rsize) mod 2 ^ 64 \<and>
         m_zeroFill reg = m_zeroFill reg0"
  using assms
proof (induction regs arbitrary: reg0)
  case Nil
  then show ?case by simp
next
  case (Cons it rest)
  from allocate_loop_step [OF Cons.prems(1)] show ?case
  proof (elim disjE exE conjE)
    assume "reg = reg0"
    then show ?thesis using Cons.prems by simp
  next
    assume "allocate_loop g rsize fl count rest reg0 = Inr reg"
    then show ?thesis
      using Cons.IH [of reg0] Cons.prems by simp
  next
    fix reg1
    assume a: "addRegisterSized reg0 it rsize = Inr reg1"
      and l: "allocate_loop g rsize fl count rest reg1 = Inr reg"
    note ar = addRegisterSized_Inr [OF a]
    have d: "distinct (map sr_number (m_regs reg1))"
      using ar(1) ar(5) Cons.prems(2) by simp
    have s: "m_size reg1 = (length (m_regs reg1) * sizeBits rsize) mod 2 ^ 64"
      using ar(1) ar(2) Cons.prems(3) by (simp add: mod_simps add.commute)
    have f: "m_fullSize reg1 = (length (m_regs reg1) * sizeBits rsize) mod 2 ^ 64"
      using ar(1) ar(3) Cons.prems(4) by (simp add: mod_simps add.commute)
    show ?thesis
      using Cons.IH [OF l d s f] ar(4) by simp
  qed
qed

text \<open>
  When the registers of the platform have numbers below 64, a failing search has thrown
  an exception.
\<close>

lemma allocate_loop_error:
  assumes "allocate_loop g rsize fl count regs reg0 = Inl e"
    and "\<forall>x \<in> set regs. unat (number x) < 64"
  shows "\<not> undefinedBehaviour e"
  using assms
proof (induction regs arbitrary: reg0)
  case Nil
  then show ?case by simp
next
  case (Cons it rest)
  have k: "unat (number it) < 64"
    using Cons.prems(2) by simp
  have rest: "\<forall>x \<in> set rest. unat (number x) < 64"
    using Cons.prems(2) by simp
  obtain b where b: "regBit (number it) = Inr b"
    using regBit_defined [OF k] by blast
  have nc: "numRegs reg0 \<noteq> count"
    using Cons.prems(1) by (auto split: if_splits)
  show ?case
  proof (cases "(m_allocatedRegs g AND b) \<noteq> 0 \<or> \<not> hasSize it rsize \<or>
      (flags it AND fl) \<noteq> fl \<or> hasFlag it NoAllocate")
    case True
    with Cons.prems(1) nc b have "allocate_loop g rsize fl count rest reg0 = Inl e"
      by (auto split: if_splits)
    from Cons.IH [OF this rest] show ?thesis .
  next
    case False
    show ?thesis
    proof (cases "addRegisterSized reg0 it rsize")
      case (Inl e')
      with Cons.prems(1) nc b False have "e = e'" by simp
      with addRegisterSized_error [OF Inl] show ?thesis by simp
    next
      case (Inr reg1)
      with Cons.prems(1) nc b False have "allocate_loop g rsize fl count rest reg1 = Inl e"
        by simp
      from Cons.IH [OF this rest] show ?thesis .
    qed
  qed
qed

lemma distinct_numbers_length:
  assumes "distinct (xs :: 8 word list)"
  shows "length xs \<le> 256"
proof -
  have "length xs = card (set xs)"
    using assms by (simp add: distinct_card)
  also have "\<dots> \<le> card (UNIV :: 8 word set)"
    by (rule card_mono) simp_all
  also have "\<dots> = 256"
    by (simp add: card_word)
  finally show ?thesis .
qed

subsection \<open>Allocation\<close>

lemma setSize_Inr: "setSize r sz = Inr r' \<Longrightarrow> r' = r\<lparr>m_size := sz\<rparr> \<and> sz \<le> m_fullSize r \<and>
     (m_fullSize r + 2 ^ 64 - limbSize r) mod 2 ^ 64 < sz"
  by (auto simp add: setSize_def split: if_splits)

lemma setSize_error: "setSize r sz = Inl e \<Longrightarrow> \<not> undefinedBehaviour e"
  by (auto simp add: setSize_def split: if_splits)

lemma allocate_unfold:
  "allocate g sz fl =
     (if fl = 0 then (Inr Reg_null, g)
      else case allocate_loop g (limbWidth g fl) fl (limbCount g sz fl)
                  (m_registers (m_platform g)) Reg_null of
             Inl e \<Rightarrow> (Inl e, g)
           | Inr reg \<Rightarrow>
               if numRegs reg \<noteq> limbCount g sz fl then (Inr Reg_null, g)
               else (case mark_loop g (m_regs reg) of
                       (Inl e, g') \<Rightarrow> (Inl e, g')
                     | (Inr u, g') \<Rightarrow>
                         (case setSize reg sz of
                            Inl e \<Rightarrow> (Inl e, g')
                          | Inr reg' \<Rightarrow>
                              (Inr (if m_fullSize reg' \<noteq> sz then setZeroFill reg' False
                                    else reg'),
                               g'))))"
  by (simp only: allocate_def Let_def limbWidth_def limbCount_def)

text \<open>
  What a call of allocate can do: leave the generator alone and return the null register
  or the failure of the search, or mark the limbs it found (which never is an undefined
  shift, the search having computed the bit of each of them) and return the register or
  the failure of \<open>setSize\<close>.
\<close>

lemma allocate_cases:
  assumes "allocate g sz fl = (res, g')"
  shows "(g' = g \<and>
           (res = Inr Reg_null \<or>
            (\<exists>e. res = Inl e \<and>
               allocate_loop g (limbWidth g fl) fl (limbCount g sz fl)
                 (m_registers (m_platform g)) Reg_null = Inl e))) \<or>
         (\<exists>reg. fl \<noteq> 0 \<and>
            allocate_loop g (limbWidth g fl) fl (limbCount g sz fl)
              (m_registers (m_platform g)) Reg_null = Inr reg \<and>
            numRegs reg = limbCount g sz fl \<and>
            mark_loop g (m_regs reg) = (Inr (), g') \<and>
            ((\<exists>e. res = Inl e \<and> setSize reg sz = Inl e) \<or>
             (\<exists>reg'. setSize reg sz = Inr reg' \<and>
                res = Inr (if m_fullSize reg' \<noteq> sz then setZeroFill reg' False else reg'))))"
proof (cases "fl = 0")
  case True
  with assms have "res = Inr Reg_null" "g' = g" by (simp_all add: allocate_unfold)
  then show ?thesis by blast
next
  case nz: False
  show ?thesis
  proof (cases "allocate_loop g (limbWidth g fl) fl (limbCount g sz fl)
                  (m_registers (m_platform g)) Reg_null")
    case (Inl e)
    with assms nz have "res = Inl e" "g' = g" by (simp_all add: allocate_unfold)
    with Inl show ?thesis by blast
  next
    case (Inr reg)
    show ?thesis
    proof (cases "numRegs reg = limbCount g sz fl")
      case False
      with assms nz Inr have "res = Inr Reg_null" "g' = g" by (simp_all add: allocate_unfold)
      then show ?thesis by blast
    next
      case True
      have "\<forall>sr \<in> set (m_regs reg). unat (sr_number sr) < 64"
        using allocate_loop_limbs [OF Inr] by (auto simp add: Reg_null_def)
      then have "fst (mark_loop g (m_regs reg)) = Inr ()"
        using mark_loop_marks [of "m_regs reg" g] by simp
      then obtain gm where gm: "mark_loop g (m_regs reg) = (Inr (), gm)"
        by (cases "mark_loop g (m_regs reg)") simp
      show ?thesis
      proof (cases "setSize reg sz")
        case (Inl e)
        with assms nz Inr True gm have "res = Inl e" "g' = gm"
          by (simp_all add: allocate_unfold)
        with nz Inr True gm Inl show ?thesis by blast
      next
        case r: (Inr reg')
        with assms nz Inr True gm have
          "res = Inr (if m_fullSize reg' \<noteq> sz then setZeroFill reg' False else reg')"
          "g' = gm"
          by (auto simp add: allocate_unfold)
        with nz Inr True gm r show ?thesis by blast
      qed
    qed
  qed
qed


text \<open>The register of a successful allocation.\<close>

lemma allocate_success:
  assumes a: "allocate g sz fl = (Inr r, g')" and nn: "\<not> isNull r" and sz: "sz < 2 ^ 64"
  shows "\<forall>sr \<in> set (m_regs r). m_reg sr \<in> set (m_registers (m_platform g)) \<and>
           m_regSize sr = limbWidth g fl \<and> \<not> hasFlag (m_reg sr) NoAllocate"
    and "numRegs r = (sz + sizeBits (limbWidth g fl) - 1) div sizeBits (limbWidth g fl)"
    and "m_size r = sz"
    and "m_fullSize r = numRegs r * sizeBits (limbWidth g fl)"
    and "m_zeroFill r \<longleftrightarrow> m_fullSize r = sz"
proof -
  let ?L = "sizeBits (limbWidth g fl)"
  have "r \<noteq> Reg_null" using nn by (auto simp add: isNull_def Reg_null_def)
  with allocate_cases [OF a] obtain reg reg' where
    loop: "allocate_loop g (limbWidth g fl) fl (limbCount g sz fl)
             (m_registers (m_platform g)) Reg_null = Inr reg"
    and cnt: "numRegs reg = limbCount g sz fl"
    and ss: "setSize reg sz = Inr reg'"
    and r: "r = (if m_fullSize reg' \<noteq> sz then setZeroFill reg' False else reg')"
    by auto
  note s = setSize_Inr [OF ss]
  have regs: "m_regs r = m_regs reg"
    using r s by (simp add: setZeroFill_def)
  from allocate_loop_limbs [OF loop] have limbs:
    "\<forall>sr \<in> set (m_regs reg). m_reg sr \<in> set (m_registers (m_platform g)) \<and>
       m_regSize sr = limbWidth g fl \<and> \<not> hasFlag (m_reg sr) NoAllocate"
    by (auto simp add: Reg_null_def)
  have shape: "distinct (map sr_number (m_regs reg))"
    "m_fullSize reg = (length (m_regs reg) * ?L) mod 2 ^ 64"
    "m_zeroFill reg"
    using allocate_loop_shape [OF loop] by (simp_all add: Reg_null_def)
  have "length (m_regs reg) \<le> 256"
    using distinct_numbers_length [OF shape(1)] by simp
  then have "length (m_regs reg) * ?L \<le> 256 * 64"
    using sizeBits_le [of "limbWidth g fl"] by (rule mult_le_mono)
  then have full: "m_fullSize reg = length (m_regs reg) * ?L"
    using shape(2) by simp
  show "\<forall>sr \<in> set (m_regs r). m_reg sr \<in> set (m_registers (m_platform g)) \<and>
           m_regSize sr = limbWidth g fl \<and> \<not> hasFlag (m_reg sr) NoAllocate"
    using limbs regs by simp
  show "m_size r = sz"
    using r s by (simp add: setZeroFill_def)
  have nowrap: "sz + ?L - 1 < 2 ^ 64"
  proof (rule ccontr)
    assume "\<not> sz + ?L - 1 < 2 ^ 64"
    then have big: "2 ^ 64 \<le> sz + ?L - 1" by simp
    have "sz + ?L - 1 < 2 ^ 64 + 2 ^ 64"
      using sz sizeBits_le [of "limbWidth g fl"] by simp
    then have "(sz + ?L - 1) mod 2 ^ 64 = sz + ?L - 1 - 2 ^ 64"
      using big by (simp add: mod_if)
    also have "\<dots> < ?L"
      using sz sizeBits_pos [of "limbWidth g fl"] by arith
    finally have "limbCount g sz fl = 0"
      by (simp add: limbCount_def)
    then have "m_fullSize reg = 0"
      using cnt full by (simp add: numRegs_def)
    then have "sz = 0" using s by simp
    with big sizeBits_le [of "limbWidth g fl"] show False by simp
  qed
  show "numRegs r = (sz + ?L - 1) div ?L"
    using cnt regs nowrap by (simp add: numRegs_def limbCount_def)
  show "m_fullSize r = numRegs r * ?L"
    using r s full regs by (simp add: setZeroFill_def numRegs_def)
  show "m_zeroFill r \<longleftrightarrow> m_fullSize r = sz"
    using r s shape(3) by (simp add: setZeroFill_def)
qed

lemma allocate_null_keeps:
  assumes a: "allocate g sz fl = (Inr r, g')" and n: "isNull r" and sz: "sz \<noteq> 0"
  shows "g' = g"
proof (rule ccontr)
  assume ne: "g' \<noteq> g"
  with allocate_cases [OF a] obtain reg reg' where ss: "setSize reg sz = Inr reg'"
    and r: "r = (if m_fullSize reg' \<noteq> sz then setZeroFill reg' False else reg')"
    by auto
  have "m_size r = sz"
    using r setSize_Inr [OF ss] by (simp add: setZeroFill_def)
  with n sz show False by (simp add: isNull_def)
qed

text \<open>
  When the registers of the platform have numbers below 64, a failing allocation has
  thrown an exception.
\<close>

lemma allocate_error:
  assumes a: "allocate g sz fl = (Inl e, g')"
    and small: "\<forall>x \<in> set (m_registers (m_platform g)). unat (number x) < 64"
  shows "\<not> undefinedBehaviour e"
proof -
  from allocate_cases [OF a] have
    "allocate_loop g (limbWidth g fl) fl (limbCount g sz fl)
       (m_registers (m_platform g)) Reg_null = Inl e \<or> (\<exists>reg. setSize reg sz = Inl e)"
    by auto
  then show ?thesis
    using allocate_loop_error [OF _ small] setSize_error by blast
qed

text \<open>
  \<open>allocateReg\<close> returns what one of its tries on the generator it was given returns, or
  throws without a change to the generator: a try that yields the null register has left
  the generator as it was.
\<close>

lemma allocateReg_cases:
  assumes "allocateReg g sz f1 f2 f3 f4 = (res, g')"
  shows "(\<exists>msg. res = Inl (invalid_argument msg) \<and> g' = g) \<or>
         (sz \<noteq> 0 \<and> (\<forall>r. res = Inr r \<longrightarrow> \<not> isNull r) \<and>
          (\<exists>f \<in> {f1, f2, f3, f4}. allocate g sz f = (res, g')))"
proof (cases "sz = 0")
  case True
  with assms show ?thesis by (auto simp add: allocateReg_def)
next
  case sz: False
  obtain res1 g1 where a1: "allocate g sz f1 = (res1, g1)" by (cases "allocate g sz f1")
  obtain res2 g2 where a2: "allocate g sz f2 = (res2, g2)" by (cases "allocate g sz f2")
  obtain res3 g3 where a3: "allocate g sz f3 = (res3, g3)" by (cases "allocate g sz f3")
  obtain res4 g4 where a4: "allocate g sz f4 = (res4, g4)" by (cases "allocate g sz f4")
  have k: "rs = Inr reg \<Longrightarrow> isNull reg \<Longrightarrow> allocate g sz f = (rs, gg) \<Longrightarrow> gg = g"
    for rs reg f gg
    using allocate_null_keeps [of g sz f reg gg] sz by simp
  show ?thesis
  proof (cases res1)
    case (Inl e)
    with assms a1 sz have "res = res1" "g' = g1" by (simp_all add: allocateReg_def)
    with a1 sz Inl show ?thesis by auto
  next
    case r1: (Inr reg1)
    show ?thesis
    proof (cases "isNull reg1")
      case False
      with assms a1 sz r1 have "res = res1" "g' = g1" by (simp_all add: allocateReg_def)
      with a1 sz r1 False show ?thesis by auto
    next
      case n1: True
      have e1: "g1 = g" using k [OF r1 n1 a1] .
      show ?thesis
      proof (cases res2)
        case (Inl e)
        with assms a1 a2 sz r1 n1 e1 have "res = res2" "g' = g2"
          by (simp_all add: allocateReg_def)
        with a2 sz Inl show ?thesis by auto
      next
        case r2: (Inr reg2)
        show ?thesis
        proof (cases "isNull reg2")
          case False
          with assms a1 a2 sz r1 n1 e1 r2 have "res = res2" "g' = g2"
            by (simp_all add: allocateReg_def)
          with a2 sz r2 False show ?thesis by auto
        next
          case n2: True
          have e2: "g2 = g" using k [OF r2 n2 a2] .
          show ?thesis
          proof (cases res3)
            case (Inl e)
            with assms a1 a2 a3 sz r1 n1 e1 r2 n2 e2 have "res = res3" "g' = g3"
              by (simp_all add: allocateReg_def)
            with a3 sz Inl show ?thesis by auto
          next
            case r3: (Inr reg3)
            show ?thesis
            proof (cases "isNull reg3")
              case False
              with assms a1 a2 a3 sz r1 n1 e1 r2 n2 e2 r3 have "res = res3" "g' = g3"
                by (simp_all add: allocateReg_def)
              with a3 sz r3 False show ?thesis by auto
            next
              case n3: True
              have e3: "g3 = g" using k [OF r3 n3 a3] .
              show ?thesis
              proof (cases res4)
                case (Inl e)
                with assms a1 a2 a3 a4 sz r1 n1 e1 r2 n2 e2 r3 n3 e3
                have "res = res4" "g' = g4"
                  by (simp_all add: allocateReg_def)
                with a4 sz Inl show ?thesis by auto
              next
                case r4: (Inr reg4)
                show ?thesis
                proof (cases "isNull reg4")
                  case False
                  with assms a1 a2 a3 a4 sz r1 n1 e1 r2 n2 e2 r3 n3 e3 r4
                  have "res = res4" "g' = g4"
                    by (simp_all add: allocateReg_def)
                  with a4 sz r4 False show ?thesis by auto
                next
                  case n4: True
                  have e4: "g4 = g" using k [OF r4 n4 a4] .
                  from assms a1 a2 a3 a4 sz r1 n1 e1 r2 n2 e2 r3 n3 e3 r4 n4 e4
                  have "res = Inl (invalid_argument
                          (''cannot allocate a register with '' @ to_string sz @ '' bits''))"
                    "g' = g"
                    by (simp_all add: allocateReg_def)
                  then show ?thesis by blast
                qed
              qed
            qed
          qed
        qed
      qed
    qed
  qed
qed

lemma allocateReg_success:
  assumes "allocateReg g sz f1 f2 f3 f4 = (Inr r, g')"
  shows "sz \<noteq> 0 \<and> \<not> isNull r \<and> (\<exists>f \<in> {f1, f2, f3, f4}. allocate g sz f = (Inr r, g'))"
  using allocateReg_cases [OF assms] by simp

lemma allocateReg_error:
  assumes "allocateReg g sz f1 f2 f3 f4 = (Inl e, g')"
    and "\<forall>x \<in> set (m_registers (m_platform g)). unat (number x) < 64"
  shows "\<not> undefinedBehaviour e"
  using allocateReg_cases [OF assms(1)] allocate_error [OF _ assms(2)] by auto

subsection \<open>Arguments\<close>

lemma allocate_frame:
  "\<exists>a u. snd (allocate g sz fl) = g\<lparr>m_allocatedRegs := a, m_usedRegs := u\<rparr>"
proof -
  obtain res g' where a: "allocate g sz fl = (res, g')" by (cases "allocate g sz fl")
  have "g' = g \<or> (\<exists>srs. g' = snd (mark_loop g srs))"
    using allocate_cases [OF a] by (metis snd_conv)
  moreover have "g = g\<lparr>m_allocatedRegs := m_allocatedRegs g, m_usedRegs := m_usedRegs g\<rparr>"
    by simp
  ultimately show ?thesis
    using mark_loop_frame [of g] a by (metis snd_conv)
qed

lemma allocate_insns: "m_insns (snd (allocate g sz fl)) = m_insns g"
proof -
  obtain a u where "snd (allocate g sz fl) = g\<lparr>m_allocatedRegs := a, m_usedRegs := u\<rparr>"
    using allocate_frame by blast
  then show ?thesis by simp
qed

lemma addArgument_regs_insns:
  "m_insns (snd (addArgument_regs g reg nsize count)) = m_insns g"
proof (induction g reg nsize count rule: addArgument_regs.induct)
  case (1 g reg nsize count)
  show ?case
  proof (cases "count > 0 \<and> m_nextArgumentReg g < length (m_arguments (m_platform g))")
    case False
    then show ?thesis by auto
  next
    case True
    let ?basic = "m_arguments (m_platform g) ! m_nextArgumentReg g"
    let ?g1 = "g\<lparr>m_nextArgumentReg := m_nextArgumentReg g + 1\<rparr>"
    show ?thesis
    proof (cases "addRegisterSized reg ?basic nsize")
      case (Inl e)
      with True show ?thesis by (simp add: Let_def)
    next
      case (Inr reg1)
      show ?thesis
      proof (cases "regBit (number ?basic)")
        case (Inl e)
        with True Inr show ?thesis by (simp add: Let_def)
      next
        case b: (Inr b)
        have "m_insns (snd (addArgument_regs
                (?g1\<lparr>m_allocatedRegs := m_allocatedRegs ?g1 OR b,
                      m_usedRegs := m_usedRegs ?g1 OR b\<rparr>)
                reg1 nsize (count - 1))) = m_insns g"
          using "1.IH" [OF True refl refl Inr b] by simp
        with True Inr b show ?thesis by (simp add: Let_def)
      qed
    qed
  qed
qed

lemma addArgument_stack_insns:
  "m_insns (snd (addArgument_stack g ty reg nsize count offset)) = m_insns g"
proof (induction g ty reg nsize count offset rule: addArgument_stack.induct)
  case (1 g ty reg nsize count offset)
  show ?case
  proof (cases "count > 0")
    case False
    then show ?thesis by simp
  next
    case True
    let ?fl = "if ty = ARG_PTR then Address else Data"
    obtain res g1 where a: "allocate g (sizeBits nsize) ?fl = (res, g1)"
      by (cases "allocate g (sizeBits nsize) ?fl")
    have g1: "m_insns g1 = m_insns g"
      using allocate_insns [of g "sizeBits nsize" ?fl] a by simp
    show ?thesis
    proof (cases res)
      case (Inl e)
      with True a g1 show ?thesis by simp
    next
      case (Inr temp)
      show ?thesis
      proof (cases "isNull temp \<or> m_regs temp = []")
        case n: True
        with True a g1 Inr show ?thesis by auto
      next
        case n: False
        show ?thesis
        proof (cases "addRegister reg (m_regs temp ! 0)")
          case (Inl e)
          with True a g1 Inr n show ?thesis by simp
        next
          case r: (Inr reg1)
          show ?thesis
          proof (cases "regBit (sr_number (m_regs temp ! 0))")
            case (Inl e)
            with True a g1 Inr n r show ?thesis by simp
          next
            case b: (Inr b)
            have "m_insns (snd (addArgument_stack
                    (g1\<lparr>m_allocatedRegs := m_allocatedRegs g1 OR b,
                        m_usedRegs := m_usedRegs g1 OR b\<rparr>)
                    ty reg1 nsize (count - 1) ((offset + sizeBits nsize) mod 2 ^ 64))) =
                  m_insns g1"
              using "1.IH" [OF True a [symmetric] Inr _ _ r b] n by simp
            with True a g1 Inr n r b show ?thesis by simp
          qed
        qed
      qed
    qed
  qed
qed

text \<open>
  Claim C3 says that \<open>addArgument\<close>, once the platform's argument registers are
  exhausted, allocates further registers and appends an ldarg record for each of them.
  The source allocates the registers, but its ldarg call is the comment
  \<^verbatim>\<open>// TODO: ldarg(temp, offset);\<close>: whatever the generator and the argument type, the
  instruction buffer after \<open>addArgument\<close> is the buffer before it.
\<close>

theorem addArgument_appends_nothing:
  "m_insns (snd (addArgument g ty)) = m_insns g"
proof -
  let ?nsize0 = "nativeWordSize (m_platform g)"
  let ?asize = "addressWordSize (m_platform g)"
  let ?size0 = "argBits ty (sizeBits ?asize)"
  let ?size1 = "if ?size0 < sizeBits ?nsize0 then sizeBits ?nsize0 else ?size0"
  obtain count nsize where cn:
    "(if ty = ARG_PTR then (1, ?asize)
      else if ?size1 = 64 \<and> sizeBits ?nsize0 < sizeBits ?asize \<and> sizeBits ?asize \<ge> 64
      then (1, ?asize)
      else (?size1 div sizeBits ?nsize0, ?nsize0)) = (count, nsize)"
    by (metis surj_pair)
  obtain res1 g1 where l1: "addArgument_regs g Reg_null nsize count = (res1, g1)"
    by (cases "addArgument_regs g Reg_null nsize count")
  have g1: "m_insns g1 = m_insns g"
    using addArgument_regs_insns [of g Reg_null nsize count] l1 by simp
  show ?thesis
  proof (cases res1)
    case (Inl e)
    with cn l1 g1 show ?thesis by (simp add: addArgument_def Let_def)
  next
    case (Inr rc)
    obtain reg1 count1 where rc: "rc = (reg1, count1)" by (cases rc)
    obtain res2 g2 where l2:
      "addArgument_stack g1 ty reg1 nsize count1 (m_nextArgumentOffset g1) = (res2, g2)"
      by (cases "addArgument_stack g1 ty reg1 nsize count1 (m_nextArgumentOffset g1)")
    have g2: "m_insns g2 = m_insns g"
      using addArgument_stack_insns [of g1 ty reg1 nsize count1 "m_nextArgumentOffset g1"] l2 g1
      by simp
    show ?thesis
    proof (cases res2)
      case (Inl e)
      with cn l1 Inr rc l2 g2 show ?thesis by (simp add: addArgument_def Let_def)
    next
      case r2: (Inr reg2)
      with cn l1 Inr rc l2 g2 show ?thesis
        by (simp add: addArgument_def Let_def split: sum.splits)
    qed
  qed
qed

subsection \<open>Concrete allocations on ARMv6m\<close>

lemma ARMv6m_eval:
  "Platform_ARMv6m =
    \<lparr>nativeWordSize = Size32, addressWordSize = Size32, m_features = 0x509,
     m_registers =
       [reg32 3 ''r3'' 0x61, reg32 2 ''r2'' 0x61, reg32 1 ''r1'' 0x61, reg32 0 ''r0'' 0x61,
        reg32 4 ''r4'' 0x261, reg32 5 ''r5'' 0x261, reg32 6 ''r6'' 0x261, reg32 7 ''r7'' 0x261,
        reg32 8 ''r8'' 0x280, reg32 9 ''r9'' 0x280, reg32 10 ''r10'' 0x280,
        reg32 12 ''ip'' 0x880, reg32 11 ''fp'' 0x280, reg32 14 ''lr'' 0x290,
        reg32 13 ''sp'' 0x1024, reg32 15 ''pc'' 0x1028],
     m_arguments = [reg32 0 ''r0'' 0x61, reg32 1 ''r1'' 0x61, reg32 2 ''r2'' 0x61,
                    reg32 3 ''r3'' 0x61],
     m_sp = reg32 13 ''sp'' 0x1024\<rparr>"
  by (simp add: Platform_ARMv6m_def Let_def setFeatures_def addBasicRegister_def
      setStackPointer_def addArgumentRegister_def Platform_ARM_def registerForNumber_def
      Feature_TwoAddress_def SplitRegisters_def BitClear_def UnaryDest_def
      Address_def Data_def TwoAddress_def Storage_def CalleeSaved_def Temporary_def
      StackPointer_def NoAllocate_def ProgramCounter_def Link_def reg32_def)

lemmas allocate_eval =
  allocateReg_def allocate_def Let_def ARMv6m_eval CodeGenerator_new_def
  Data_def Address_def TwoAddress_def CalleeSaved_def numRegs_def Reg_null_def regBit_def
  hasSize_def hasFlag_def NoAllocate_def reg32_def BasicRegister_null_def
  addRegisterSized_def SizedRegister_new_def addRegister_def setSize_def limbSize_def
  isNull_def setZeroFill_def sr_number_def

lemma allocate_40_on_ARMv6m:
  "allocateReg (CodeGenerator_new Platform_ARMv6m) 40 Data 0 0 0 =
     (Inr Reg_r3r2_40,
      (CodeGenerator_new Platform_ARMv6m)\<lparr>m_allocatedRegs := 12, m_usedRegs := 12\<rparr>)"
  by (simp add: allocate_eval Reg_r3r2_40_def r3_32_def r2_32_def)


text \<open>
  A fifth pointer argument on ARMv6m, when r0 to r3 hold the first four: the argument
  registers are exhausted, so r4 is allocated for the stacked word and the argument offset
  advances by 32, while the instruction buffer stays as empty as it was.
\<close>

lemma addArgument_fifth_on_ARMv6m:
  "addArgument
     ((CodeGenerator_new Platform_ARMv6m)\<lparr>m_allocatedRegs := 15, m_usedRegs := 15,
        m_nextArgumentReg := 4\<rparr>) ARG_PTR =
   (Inr \<lparr>m_size = 32, m_fullSize = 32, m_zeroFill = True, m_regs = [r4_32]\<rparr>,
    (CodeGenerator_new Platform_ARMv6m)\<lparr>m_allocatedRegs := 31, m_usedRegs := 31,
       m_nextArgumentReg := 4, m_nextArgumentOffset := 32\<rparr>)"
  by (simp add: addArgument_def allocate_eval hasFeature_def BigEndian_def alignUp_def
      r4_32_def)


subsection \<open>Registers marked NoAllocate\<close>

lemma same_number_same_register:
  assumes "distinct (map number regs)" and "x \<in> set regs" and "y \<in> set regs"
    and "number x = number y"
  shows "x = y"
  using assms by (meson distinct_map inj_onD)

lemma allocate_keeps_noallocate:
  assumes d: "distinct (map number (m_registers (m_platform g)))"
    and inv: "\<forall>r \<in> set (m_registers (m_platform g)).
                hasFlag r NoAllocate \<longrightarrow> \<not> bit (m_allocatedRegs g) (unat (number r))"
  shows "m_platform (snd (allocate g sz fl)) = m_platform g \<and>
         (\<forall>r \<in> set (m_registers (m_platform g)).
            hasFlag r NoAllocate \<longrightarrow>
              \<not> bit (m_allocatedRegs (snd (allocate g sz fl))) (unat (number r)))"
proof -
  obtain res g' where a: "allocate g sz fl = (res, g')" by (cases "allocate g sz fl")
  from allocate_cases [OF a] consider
    (keep) "g' = g"
    | (mark) reg where
      "allocate_loop g (limbWidth g fl) fl (limbCount g sz fl)
         (m_registers (m_platform g)) Reg_null = Inr reg"
      "mark_loop g (m_regs reg) = (Inr (), g')"
    by blast
  then show ?thesis
  proof cases
    case keep
    with a inv show ?thesis by simp
  next
    case mark
    from allocate_loop_limbs [OF mark(1)] have limbs:
      "\<forall>sr \<in> set (m_regs reg). m_reg sr \<in> set (m_registers (m_platform g)) \<and>
         unat (sr_number sr) < 64 \<and> \<not> hasFlag (m_reg sr) NoAllocate"
      by (auto simp add: Reg_null_def)
    then have small: "\<forall>sr \<in> set (m_regs reg). unat (sr_number sr) < 64"
      by simp
    have bits: "bit (m_allocatedRegs g') n \<longleftrightarrow>
        bit (m_allocatedRegs g) n \<or> (\<exists>sr \<in> set (m_regs reg). n = unat (sr_number sr))" for n
      using mark_loop_marks [OF small, of g n] mark(2) by simp
    have "\<not> bit (m_allocatedRegs g') (unat (number r))"
      if r: "r \<in> set (m_registers (m_platform g))" "hasFlag r NoAllocate" for r
    proof
      assume "bit (m_allocatedRegs g') (unat (number r))"
      then obtain sr where sr: "sr \<in> set (m_regs reg)" "unat (number r) = unat (sr_number sr)"
        using bits [of "unat (number r)"] inv r by auto
      then have "number r = number (m_reg sr)"
        by (simp add: sr_number_def word_unat_eq_iff)
      then have "r = m_reg sr"
        using same_number_same_register [OF d r(1)] limbs sr(1) by blast
      with limbs sr(1) r(2) show False by blast
    qed
    moreover have "m_platform g' = m_platform g"
    proof -
      obtain x u where "snd (mark_loop g (m_regs reg)) =
          g\<lparr>m_allocatedRegs := x, m_usedRegs := u\<rparr>"
        using mark_loop_frame by blast
      then show ?thesis using mark(2) by simp
    qed
    ultimately show ?thesis using a by simp
  qed
qed

text \<open>The generator that a call of the sequence leaves, when the call is defined.\<close>

lemma perform_state:
  assumes "perform g c = Some g'"
  shows "g' = g \<or> (\<exists>sz f. g' = snd (allocate g sz f)) \<or>
         (\<exists>srs. g' = snd (release_loop g srs))"
proof (cases c)
  case (AllocateReg sz f1 f2 f3 f4)
  obtain res h where ar: "allocateReg g sz f1 f2 f3 f4 = (res, h)"
    by (cases "allocateReg g sz f1 f2 f3 f4")
  have "g' = h"
    using assms AllocateReg ar by (auto split: sum.splits if_splits)
  moreover have "h = g \<or> (\<exists>f. allocate g sz f = (res, h))"
    using allocateReg_cases [OF ar] by blast
  ultimately show ?thesis by (metis snd_conv)
next
  case (ReleaseReg reg)
  obtain res h q where rr: "releaseReg g reg = (res, h, q)"
    by (cases "releaseReg g reg")
  have "g' = h"
    using assms ReleaseReg rr by (auto split: sum.splits if_splits)
  moreover have "h = snd (release_loop g (m_regs reg))"
    using releaseReg_state [of g reg] rr by simp
  ultimately show ?thesis by blast
qed

lemma perform_platform:
  assumes "perform g c = Some g'"
  shows "m_platform g' = m_platform g"
proof -
  have "m_platform (snd (allocate g sz f)) = m_platform g" for sz f
    using allocate_frame [of g sz f] by auto
  moreover have "m_platform (snd (release_loop g srs)) = m_platform g" for srs
    using release_loop_frame [of g srs] by auto
  ultimately show ?thesis
    using perform_state [OF assms] by auto
qed

lemma perform_keeps_noallocate:
  assumes d: "distinct (map number (m_registers (m_platform g)))"
    and inv: "\<forall>r \<in> set (m_registers (m_platform g)).
                hasFlag r NoAllocate \<longrightarrow> \<not> bit (m_allocatedRegs g) (unat (number r))"
    and p: "perform g c = Some g'"
  shows "\<forall>r \<in> set (m_registers (m_platform g)).
           hasFlag r NoAllocate \<longrightarrow> \<not> bit (m_allocatedRegs g') (unat (number r))"
proof -
  have "\<forall>r \<in> set (m_registers (m_platform g)).
           hasFlag r NoAllocate \<longrightarrow>
             \<not> bit (m_allocatedRegs (snd (allocate g sz f))) (unat (number r))" for sz f
    using allocate_keeps_noallocate [OF d inv, of sz f] by simp
  moreover have "\<forall>r \<in> set (m_registers (m_platform g)).
           hasFlag r NoAllocate \<longrightarrow>
             \<not> bit (m_allocatedRegs (snd (release_loop g srs))) (unat (number r))" for srs
    using release_loop_shrinks [of g srs] inv by blast
  ultimately show ?thesis
    using perform_state [OF p] inv by auto
qed

lemma performAll_keeps_noallocate:
  assumes "distinct (map number (m_registers (m_platform g)))"
    and "\<forall>r \<in> set (m_registers (m_platform g)).
           hasFlag r NoAllocate \<longrightarrow> \<not> bit (m_allocatedRegs g) (unat (number r))"
    and "performAll g calls = Some g'"
  shows "\<forall>r \<in> set (m_registers (m_platform g)).
           hasFlag r NoAllocate \<longrightarrow> \<not> bit (m_allocatedRegs g') (unat (number r))"
  using assms
proof (induction calls arbitrary: g)
  case Nil
  then show ?case by simp
next
  case (Cons c calls)
  from Cons.prems(3) obtain g1 where
    c: "perform g c = Some g1" and rest: "performAll g1 calls = Some g'"
    by (auto split: option.splits)
  have p: "m_platform g1 = m_platform g"
    using perform_platform [OF c] .
  have i: "\<forall>r \<in> set (m_registers (m_platform g)).
       hasFlag r NoAllocate \<longrightarrow> \<not> bit (m_allocatedRegs g1) (unat (number r))"
    using perform_keeps_noallocate [OF Cons.prems(1) Cons.prems(2) c] .
  show ?case
    using Cons.IH [of g1] Cons.prems(1) p i rest by simp
qed

text \<open>
  A call is defined when the registers of the platform, and the limbs of a register that
  is released, have numbers below 64.
\<close>

lemma perform_defined:
  assumes small: "\<forall>x \<in> set (m_registers (m_platform g)). unat (number x) < 64"
    and rel: "\<And>reg sr. c = ReleaseReg reg \<Longrightarrow> sr \<in> set (m_regs reg) \<Longrightarrow>
                unat (sr_number sr) < 64"
  shows "\<exists>g'. perform g c = Some g'"
proof (cases c)
  case (AllocateReg sz f1 f2 f3 f4)
  obtain res h where ar: "allocateReg g sz f1 f2 f3 f4 = (res, h)"
    by (cases "allocateReg g sz f1 f2 f3 f4")
  show ?thesis
  proof (cases res)
    case (Inl e)
    then have "\<not> undefinedBehaviour e"
      using allocateReg_error [OF _ small] ar by blast
    with AllocateReg ar Inl show ?thesis by simp
  next
    case (Inr r)
    with AllocateReg ar show ?thesis by simp
  qed
next
  case (ReleaseReg reg)
  have "\<forall>sr \<in> set (m_regs reg). unat (sr_number sr) < 64"
    using rel [OF ReleaseReg] by blast
  from releaseReg_defined [OF this, of g] show ?thesis
    using ReleaseReg by simp
qed

lemma performAll_defined:
  assumes "\<forall>x \<in> set (m_registers (m_platform g)). unat (number x) < 64"
    and "\<forall>reg sr. ReleaseReg reg \<in> set calls \<longrightarrow> sr \<in> set (m_regs reg) \<longrightarrow>
           unat (sr_number sr) < 64"
  shows "\<exists>g'. performAll g calls = Some g'"
  using assms
proof (induction calls arbitrary: g)
  case Nil
  then show ?case by simp
next
  case (Cons c calls)
  have "\<exists>g1. perform g c = Some g1"
  proof (rule perform_defined [OF Cons.prems(1)])
    fix reg sr
    assume "c = ReleaseReg reg" "sr \<in> set (m_regs reg)"
    then show "unat (sr_number sr) < 64"
      using Cons.prems(2) by simp
  qed
  then obtain g1 where c: "perform g c = Some g1" by blast
  have p: "m_platform g1 = m_platform g"
    using perform_platform [OF c] .
  have "\<exists>g'. performAll g1 calls = Some g'"
    using Cons.IH [of g1] Cons.prems p by simp
  then show ?case using c by simp
qed

text \<open>
  Claim C6, amended: on a platform whose registers have distinct numbers, after any
  sequence of \<open>allocateReg\<close> and \<open>releaseReg\<close> calls on a fresh generator that runs into no
  undefined shift, the allocated mask has no bit set for a register of the platform whose
  flags include NoAllocate; every prefix of a sequence being a sequence, this holds at
  every point of it. And no sequence runs into an undefined shift when the registers of
  the platform and the limbs of the registers it releases have numbers below 64.
\<close>

theorem noallocate_never_allocated:
  assumes "distinct (map number (m_registers p))"
    and "r \<in> set (m_registers p)" and "hasFlag r NoAllocate"
  shows "(performAll (CodeGenerator_new p) calls = Some g \<longrightarrow>
            \<not> bit (m_allocatedRegs g) (unat (number r))) \<and>
         ((\<forall>x \<in> set (m_registers p). unat (number x) < 64) \<and>
          (\<forall>reg sr. ReleaseReg reg \<in> set calls \<longrightarrow> sr \<in> set (m_regs reg) \<longrightarrow>
             unat (sr_number sr) < 64) \<longrightarrow>
            (\<exists>g'. performAll (CodeGenerator_new p) calls = Some g'))"
proof -
  have f: "m_platform (CodeGenerator_new p) = p" "m_allocatedRegs (CodeGenerator_new p) = 0"
    by (simp_all add: CodeGenerator_new_def)
  have "\<not> bit (m_allocatedRegs g) (unat (number r))"
    if "performAll (CodeGenerator_new p) calls = Some g"
    using performAll_keeps_noallocate [of "CodeGenerator_new p" calls g] that assms f by simp
  moreover have "\<exists>g'. performAll (CodeGenerator_new p) calls = Some g'"
    if "\<forall>x \<in> set (m_registers p). unat (number x) < 64"
      and "\<forall>reg sr. ReleaseReg reg \<in> set calls \<longrightarrow> sr \<in> set (m_regs reg) \<longrightarrow>
             unat (sr_number sr) < 64"
    using performAll_defined [of "CodeGenerator_new p" calls] that f by simp
  ultimately show ?thesis by blast
qed

theorem noallocate_never_allocated_witness:
  "distinct (map number (m_registers Platform_ARMv6m)) \<and>
   sp_ARMv6m \<in> set (m_registers Platform_ARMv6m) \<and>
   hasFlag sp_ARMv6m NoAllocate \<and> unat (number sp_ARMv6m) = 13 \<and>
   list_all (\<lambda>x. unat (number x) < 64) (m_registers Platform_ARMv6m) \<and>
   list_all (\<lambda>sr. unat (sr_number sr) < 64) (m_regs Reg_r0) \<and>
   performAll (CodeGenerator_new Platform_ARMv6m)
     [AllocateReg 40 Data 0 0 0, ReleaseReg Reg_r0, AllocateReg 32 Address Data 0 0] =
     Some ((CodeGenerator_new Platform_ARMv6m)\<lparr>m_allocatedRegs := 14, m_usedRegs := 14\<rparr>) \<and>
   \<not> bit (m_allocatedRegs
            ((CodeGenerator_new Platform_ARMv6m)\<lparr>m_allocatedRegs := 14, m_usedRegs := 14\<rparr>))
        13"
proof -
  let ?calls = "[AllocateReg 40 Data 0 0 0, ReleaseReg Reg_r0, AllocateReg 32 Address Data 0 0]"
  let ?G = "(CodeGenerator_new Platform_ARMv6m)\<lparr>m_allocatedRegs := 14, m_usedRegs := 14\<rparr>"
  have d: "distinct (map number (m_registers Platform_ARMv6m))"
    by (simp add: ARMv6m_eval reg32_def)
  have s: "sp_ARMv6m \<in> set (m_registers Platform_ARMv6m)"
    by (simp add: ARMv6m_eval sp_ARMv6m_def Address_def StackPointer_def NoAllocate_def)
  have n: "hasFlag sp_ARMv6m NoAllocate" "unat (number sp_ARMv6m) = 13"
    by (simp_all add: sp_ARMv6m_def hasFlag_def reg32_def Address_def StackPointer_def
        NoAllocate_def)
  have small: "\<forall>x \<in> set (m_registers Platform_ARMv6m). unat (number x) < 64"
    "\<forall>sr \<in> set (m_regs Reg_r0). unat (sr_number sr) < 64"
    by (simp_all add: ARMv6m_eval reg32_def Reg_r0_def r0_32_def sr_number_def)
  have rel: "\<forall>reg sr. ReleaseReg reg \<in> set ?calls \<longrightarrow> sr \<in> set (m_regs reg) \<longrightarrow>
      unat (sr_number sr) < 64"
    using small(2) by simp
  note t = noallocate_never_allocated [OF d s n(1), of ?calls]
  from t small(1) rel obtain g' where
    g': "performAll (CodeGenerator_new Platform_ARMv6m) ?calls = Some g'"
    by blast
  have a2: "allocateReg
      ((CodeGenerator_new Platform_ARMv6m)\<lparr>m_allocatedRegs := 12, m_usedRegs := 12\<rparr>)
      32 Address Data 0 0 =
    (Inr \<lparr>m_size = 32, m_fullSize = 32, m_zeroFill = True, m_regs = [r1_32]\<rparr>, ?G)"
    by (simp add: allocate_eval r1_32_def)
  have r: "releaseReg
      ((CodeGenerator_new Platform_ARMv6m)\<lparr>m_allocatedRegs := 12, m_usedRegs := 12\<rparr>) Reg_r0 =
    (Inr (), (CodeGenerator_new Platform_ARMv6m)\<lparr>m_allocatedRegs := 12, m_usedRegs := 12\<rparr>,
     Reg_null)"
    by (simp add: releaseReg_def Reg_r0_def r0_32_def sr_number_def reg32_def regBit_def
        CodeGenerator_new_def)
  have e: "performAll (CodeGenerator_new Platform_ARMv6m) ?calls = Some ?G"
    by (simp add: allocate_40_on_ARMv6m r a2)
  have "\<not> bit (m_allocatedRegs ?G) (unat (number sp_ARMv6m))"
    using t e by blast
  then show ?thesis
    using d s n small e by (simp add: list_all_iff)
qed

text \<open>
  The claim as stated, for every platform, fails on a platform that gives the number 5 to
  two registers, of which the second is marked NoAllocate: allocating the first sets the
  bit of both.
\<close>

theorem noallocate_shared_number_counterexample:
  "reg32 5 ''x5'' (Data OR NoAllocate) \<in> set (m_registers Platform_sharedNumber) \<and>
   hasFlag (reg32 5 ''x5'' (Data OR NoAllocate)) NoAllocate \<and>
   unat (number (reg32 5 ''x5'' (Data OR NoAllocate))) = 5 \<and>
   performAll (CodeGenerator_new Platform_sharedNumber) [AllocateReg 32 Data 0 0 0] =
     Some ((CodeGenerator_new Platform_sharedNumber)\<lparr>m_allocatedRegs := 32,
             m_usedRegs := 32\<rparr>) \<and>
   bit (m_allocatedRegs
          ((CodeGenerator_new Platform_sharedNumber)\<lparr>m_allocatedRegs := 32,
             m_usedRegs := 32\<rparr>)) 5"
proof -
  have p: "Platform_sharedNumber =
      \<lparr>nativeWordSize = Size32, addressWordSize = Size32, m_features = 0,
       m_registers = [reg32 5 ''r5'' 0x40, reg32 5 ''x5'' 0x1040],
       m_arguments = [], m_sp = BasicRegister_null\<rparr>"
    by (simp add: Platform_sharedNumber_def Platform_ARM_def addBasicRegister_def Data_def
        NoAllocate_def)
  have a: "allocateReg (CodeGenerator_new Platform_sharedNumber) 32 Data 0 0 0 =
      (Inr \<lparr>m_size = 32, m_fullSize = 32, m_zeroFill = True,
            m_regs = [\<lparr>m_reg = reg32 5 ''r5'' 0x40, m_regSize = Size32\<rparr>]\<rparr>,
       (CodeGenerator_new Platform_sharedNumber)\<lparr>m_allocatedRegs := 32, m_usedRegs := 32\<rparr>)"
    by (simp add: allocateReg_def allocate_def Let_def p CodeGenerator_new_def
      Data_def Address_def numRegs_def Reg_null_def regBit_def
      hasSize_def hasFlag_def NoAllocate_def reg32_def BasicRegister_null_def
      addRegisterSized_def SizedRegister_new_def addRegister_def setSize_def limbSize_def
      isNull_def setZeroFill_def sr_number_def)
  have b: "bit (32 :: 64 word) 5"
    by (simp add: bit_iff_odd)
  show ?thesis
    using b by (simp add: a) (simp add: p hasFlag_def reg32_def Data_def NoAllocate_def)
qed

subsection \<open>Allocation followed by release\<close>




subsection \<open>Widths that are not a multiple of the limb width\<close>

text \<open>
  Claim C8: a successful \<open>allocateReg\<close> of \<open>bits\<close> bits returns the register of one of its
  tries; with \<open>L\<close> the limb width of that try (the allocation size, or the address word
  size when its flags request Address), if \<open>bits\<close> is not a multiple of \<open>L\<close> the register
  has exactly \<open>\<lceil>bits / L\<rceil>\<close> limbs, size \<open>bits\<close>, full size \<open>\<lceil>bits / L\<rceil> * L\<close> and a
  false zero-fill flag.
\<close>

theorem allocateReg_partial_limb:
  assumes "allocateReg g bits f1 f2 f3 f4 = (Inr r, g')" and "bits < 2 ^ 64"
  shows "\<exists>f \<in> {f1, f2, f3, f4}. allocate g bits f = (Inr r, g') \<and>
           (\<not> sizeBits (limbWidth g f) dvd bits \<longrightarrow>
              numRegs r = (bits + sizeBits (limbWidth g f) - 1) div sizeBits (limbWidth g f) \<and>
              m_size r = bits \<and>
              m_fullSize r =
                ((bits + sizeBits (limbWidth g f) - 1) div sizeBits (limbWidth g f)) *
                  sizeBits (limbWidth g f) \<and>
              \<not> m_zeroFill r)"
proof -
  from allocateReg_success [OF assms(1)] obtain f where
    f: "f \<in> {f1, f2, f3, f4}" and nn: "\<not> isNull r" and a: "allocate g bits f = (Inr r, g')"
    by blast
  note s = allocate_success [OF a nn assms(2)]
  have "\<not> m_zeroFill r" if nd: "\<not> sizeBits (limbWidth g f) dvd bits"
  proof
    assume "m_zeroFill r"
    then have "bits = numRegs r * sizeBits (limbWidth g f)"
      using s(4) s(5) by simp
    with nd show False by simp
  qed
  then show ?thesis
    using f a s(2) s(3) s(4) by auto
qed

theorem allocateReg_partial_limb_witness:
  "allocateReg (CodeGenerator_new Platform_ARMv6m) 40 Data 0 0 0 =
     (Inr Reg_r3r2_40,
      (CodeGenerator_new Platform_ARMv6m)\<lparr>m_allocatedRegs := 12, m_usedRegs := 12\<rparr>) \<and>
   (40 :: nat) < 2 ^ 64 \<and>
   sizeBits (limbWidth (CodeGenerator_new Platform_ARMv6m) Data) = 32 \<and> \<not> (32 :: nat) dvd 40 \<and>
   numRegs Reg_r3r2_40 = (40 + 32 - 1) div 32 \<and>
   m_size Reg_r3r2_40 = 40 \<and>
   m_fullSize Reg_r3r2_40 = ((40 + 32 - 1) div 32) * 32 \<and>
   \<not> m_zeroFill Reg_r3r2_40"
proof -
  let ?G = "CodeGenerator_new Platform_ARMv6m"
  have w: "sizeBits (limbWidth ?G f) = 32" for f
    by (simp add: limbWidth_def CodeGenerator_new_def ARMv6m_eval)
  have nd: "\<not> (32 :: nat) dvd 40" by simp
  from allocateReg_partial_limb [OF allocate_40_on_ARMv6m]
  obtain f where "\<not> sizeBits (limbWidth ?G f) dvd 40 \<longrightarrow>
      numRegs Reg_r3r2_40 = (40 + sizeBits (limbWidth ?G f) - 1) div sizeBits (limbWidth ?G f) \<and>
      m_size Reg_r3r2_40 = 40 \<and>
      m_fullSize Reg_r3r2_40 =
        ((40 + sizeBits (limbWidth ?G f) - 1) div sizeBits (limbWidth ?G f)) *
          sizeBits (limbWidth ?G f) \<and>
      \<not> m_zeroFill Reg_r3r2_40"
    by auto
  then show ?thesis
    using allocate_40_on_ARMv6m nd by (simp only: w) simp
qed

section \<open>Properties of the ARMv8a immediate check\<close>

subsection \<open>Bits and rotations\<close>

lemma bit64: "bit (w :: 64 word) n \<Longrightarrow> n < 64"
  using bit_imp_le_length [of w n] by simp

lemma word64_eqI: "(\<And>i. i < 64 \<Longrightarrow> bit u i \<longleftrightarrow> bit w i) \<Longrightarrow> u = w" for u w :: "64 word"
  by (rule bit_eqI) simp

lemma rotationOf_refl: "rotationOf u u"
  unfolding rotationOf_def by (rule exI [of _ 0]) simp

lemma rotationOf_word_rotr: "rotationOf u (word_rotr k u)"
  unfolding rotationOf_def by (rule exI [of _ k]) (simp add: bit_simps)

lemma rotationOf_iff: "rotationOf u w \<longleftrightarrow> (\<exists>r. w = word_rotr r u)"
proof
  assume "rotationOf u w"
  then obtain k where k: "\<forall>i < 64. bit w i \<longleftrightarrow> bit u ((i + k) mod 64)"
    by (auto simp add: rotationOf_def)
  have "w = word_rotr k u"
    by (rule word64_eqI) (simp add: k bit_simps)
  then show "\<exists>r. w = word_rotr r u" ..
next
  assume "\<exists>r. w = word_rotr r u"
  then show "rotationOf u w" using rotationOf_word_rotr by auto
qed

lemma rotationOf_trans:
  assumes "rotationOf u v" and "rotationOf v w"
  shows "rotationOf u w"
proof -
  from assms obtain a b where "v = word_rotr a u" "w = word_rotr b v"
    by (auto simp add: rotationOf_iff)
  then have "w = word_rotr (b + a) u"
    by (simp add: word_rotr_word_rotr_eq)
  then show ?thesis by (auto simp add: rotationOf_iff)
qed

lemma rotationOf_sym:
  assumes "rotationOf u w"
  shows "rotationOf w u"
proof -
  from assms obtain k where w: "w = word_rotr k u"
    by (auto simp add: rotationOf_iff)
  have "u = word_rotl k w"
    by (simp add: w)
  then have "u = word_rotr (64 - k mod 64) w"
    by (simp add: word_rotl_eq_word_rotr)
  then show ?thesis by (auto simp add: rotationOf_iff)
qed

lemma rotr1: "drop_bit 1 v OR push_bit 63 v = word_rotr 1 v" for v :: "64 word"
proof (rule word64_eqI)
  fix i :: nat
  assume i: "i < 64"
  show "bit (drop_bit 1 v OR push_bit 63 v) i \<longleftrightarrow> bit (word_rotr 1 v) i"
  proof (cases "i = 63")
    case True
    then show ?thesis
      unfolding bit_or_iff bit_drop_bit_eq bit_push_bit_iff bit_word_rotr_iff
      by (auto dest: bit64)
  next
    case False
    with i have "i < 63" by simp
    then show ?thesis
      unfolding bit_or_iff bit_drop_bit_eq bit_push_bit_iff bit_word_rotr_iff
      by (auto dest: bit64)
  qed
qed

lemma rotl1: "push_bit 1 v OR drop_bit 63 v = word_rotr 63 v" for v :: "64 word"
proof (rule word64_eqI)
  fix i :: nat
  assume i: "i < 64"
  show "bit (push_bit 1 v OR drop_bit 63 v) i \<longleftrightarrow> bit (word_rotr 63 v) i"
  proof (cases "i = 0")
    case True
    then show ?thesis
      unfolding bit_or_iff bit_drop_bit_eq bit_push_bit_iff bit_word_rotr_iff
      by (auto dest: bit64)
  next
    case False
    with i have m: "(i + 63) mod 64 = i - 1"
      by (simp add: mod_if)
    from False i show ?thesis
      unfolding bit_or_iff bit_drop_bit_eq bit_push_bit_iff bit_word_rotr_iff
      by (auto simp add: m dest: bit64)
  qed
qed

lemma test_bit0: "(v AND 1) = 0 \<longleftrightarrow> \<not> bit v 0" for v :: "64 word"
  by (simp add: and_one_eq bit_0 mod_2_eq_odd)

lemma test_bit: "(v AND push_bit n 1) = 0 \<longleftrightarrow> \<not> bit v n" for v :: "64 word"
proof
  assume z: "(v AND push_bit n 1) = 0"
  show "\<not> bit v n"
  proof
    assume b: "bit v n"
    then have "bit (v AND push_bit n 1) n"
      using bit64 [OF b] by (simp add: bit_simps)
    with z show False by simp
  qed
next
  assume "\<not> bit v n"
  then show "(v AND push_bit n 1) = 0"
    by (intro word64_eqI) (auto simp add: bit_simps)
qed

lemma test_bit_exp: "(v AND 2 ^ n) = 0 \<longleftrightarrow> \<not> bit v n" for v :: "64 word"
  using test_bit [of v n] by (simp add: push_bit_of_1)

lemma test_bit63: "(v AND 0x8000000000000000) = 0 \<longleftrightarrow> \<not> bit v 63" for v :: "64 word"
  using test_bit [of v 63] by simp

lemma rotr0 [simp]: "word_rotr 0 v = v" for v :: "64 word"
  by (rule word64_eqI) (simp add: bit_simps)

lemma nonzero_has_bit: "v \<noteq> 0 \<Longrightarrow> \<exists>n. bit v n" for v :: "64 word"
  by (metis bit_0_eq bit_eq_iff bot_apply bot_bool_def)

lemma not_ones_has_gap: "w \<noteq> NOT 0 \<Longrightarrow> \<exists>n < 64. \<not> bit w n" for w :: "64 word"
proof (rule ccontr)
  assume w: "w \<noteq> NOT 0" and "\<not> (\<exists>n < 64. \<not> bit w n)"
  then have "\<forall>n < 64. bit w n" by simp
  then have "w = NOT 0"
    by (intro word64_eqI) (simp add: bit_simps)
  with w show False by simp
qed

subsection \<open>The loops return\<close>

lemma rotate_right_loop_returns:
  "bit v n \<Longrightarrow> \<exists>k. rotate_right_loop v = Some (word_rotr k v) \<and> bit (word_rotr k v) 0"
proof (induction n arbitrary: v)
  case 0
  then have "rotate_right_loop v = Some v"
    by (subst rotate_right_loop.simps) (simp add: test_bit0)
  with 0 show ?case by (intro exI [of _ 0]) simp
next
  case (Suc n)
  show ?case
  proof (cases "bit v 0")
    case True
    then have "rotate_right_loop v = Some v"
      by (subst rotate_right_loop.simps) (simp add: test_bit0)
    with True show ?thesis by (intro exI [of _ 0]) simp
  next
    case False
    have "Suc n < 64" using bit64 [OF Suc.prems] .
    then have "bit (word_rotr 1 v) n"
      using Suc.prems by (simp add: bit_simps)
    from Suc.IH [OF this] obtain k where
      k: "rotate_right_loop (word_rotr 1 v) = Some (word_rotr k (word_rotr 1 v))"
      "bit (word_rotr k (word_rotr 1 v)) 0"
      by blast
    have "rotate_right_loop v = rotate_right_loop (drop_bit 1 v OR push_bit 63 v)"
      using False by (subst rotate_right_loop.simps) (simp only: test_bit0 simp_thms if_True)
    then have "rotate_right_loop v = rotate_right_loop (word_rotr 1 v)"
      by (simp only: rotr1)
    with k show ?thesis
      by (intro exI [of _ "k + 1"]) (simp add: word_rotr_word_rotr_eq)
  qed
qed

lemma rotate_left_loop_returns:
  "\<not> bit w (63 - d) \<Longrightarrow> d \<le> 63 \<Longrightarrow> bit w 0 \<Longrightarrow>
   \<exists>k. rotate_left_loop w = Some (word_rotr k w) \<and> \<not> bit (word_rotr k w) 63 \<and>
       bit (word_rotr k w) 0"
proof (induction d arbitrary: w)
  case 0
  then have "rotate_left_loop w = Some w"
    by (subst rotate_left_loop.simps) (simp add: test_bit63)
  with 0 show ?case by (intro exI [of _ 0]) simp
next
  case (Suc d)
  show ?case
  proof (cases "bit w 63")
    case False
    then have "rotate_left_loop w = Some w"
      by (subst rotate_left_loop.simps) (simp add: test_bit63)
    with False Suc.prems show ?thesis by (intro exI [of _ 0]) simp
  next
    case True
    have m: "(63 - d + 63) mod 64 = 63 - Suc d"
      using Suc.prems(2) by (simp add: mod_if)
    have a: "\<not> bit (word_rotr 63 w) (63 - d)"
      using Suc.prems(1) by (simp add: bit_simps m)
    have b: "bit (word_rotr 63 w) 0"
      using True by (simp add: bit_simps)
    from Suc.IH [OF a _ b] Suc.prems(2) obtain k where
      k: "rotate_left_loop (word_rotr 63 w) = Some (word_rotr k (word_rotr 63 w))"
      "\<not> bit (word_rotr k (word_rotr 63 w)) 63" "bit (word_rotr k (word_rotr 63 w)) 0"
      by auto
    have "rotate_left_loop w = rotate_left_loop (push_bit 1 w OR drop_bit 63 w)"
      using True by (subst rotate_left_loop.simps) (simp only: test_bit63 simp_thms if_True)
    then have "rotate_left_loop w = rotate_left_loop (word_rotr 63 w)"
      by (simp only: rotl1)
    with k show ?thesis
      by (intro exI [of _ "k + 63"]) (simp add: word_rotr_word_rotr_eq)
  qed
qed

lemma ones_loop_returns:
  "\<not> bit v 63 \<Longrightarrow> j \<le> 63 \<Longrightarrow> \<forall>i < j. bit v i \<Longrightarrow>
   \<exists>ones. ones_loop v j = Some ones \<and> j \<le> ones \<and> ones \<le> 63 \<and> (\<forall>i < ones. bit v i) \<and>
          \<not> bit v ones"
proof (induction "63 - j" arbitrary: j)
  case 0
  then have j: "j = 63" by simp
  have "ones_loop v 63 = Some 63"
    using 0(2) by (subst ones_loop.simps) (simp add: test_bit63)
  with 0 j show ?case by simp
next
  case (Suc d)
  show ?case
  proof (cases "bit v j")
    case False
    then have "ones_loop v j = Some j"
      using Suc.prems(2) by (subst ones_loop.simps) (simp add: test_bit test_bit_exp)
    with False Suc.prems show ?thesis by simp
  next
    case True
    have lt: "j < 63"
      using Suc.hyps(2) by simp
    have all: "\<forall>i < j + 1. bit v i"
      using True Suc.prems(3) by (simp add: less_Suc_eq)
    have "d = 63 - (j + 1)" using Suc.hyps(2) by simp
    from Suc.hyps(1) [OF this Suc.prems(1) _ all] lt obtain ones where
      o: "ones_loop v (j + 1) = Some ones" "j + 1 \<le> ones" "ones \<le> 63"
      "\<forall>i < ones. bit v i" "\<not> bit v ones"
      by auto
    have "ones_loop v j = ones_loop v (j + 1)"
      using True lt by (subst ones_loop.simps) (simp add: test_bit test_bit_exp)
    with o show ?thesis by simp
  qed
qed

lemma zeroes_loop_returns:
  "j \<le> 64 \<Longrightarrow>
   j \<le> zeroes_loop v j \<and> zeroes_loop v j \<le> 64 \<and>
   (\<forall>i. j \<le> i \<and> i < zeroes_loop v j \<longrightarrow> \<not> bit v i) \<and>
   (zeroes_loop v j < 64 \<longrightarrow> bit v (zeroes_loop v j))"
proof (induction "64 - j" arbitrary: j)
  case 0
  then have j: "j = 64" by simp
  have "zeroes_loop v 64 = 64"
    by (subst zeroes_loop.simps) simp
  with j show ?case by auto
next
  case (Suc d)
  have lt: "j < 64" using Suc.hyps(2) by simp
  show ?case
  proof (cases "bit v j")
    case True
    then have "zeroes_loop v j = j"
      by (subst zeroes_loop.simps) (simp add: test_bit test_bit_exp)
    with True show ?thesis using lt by auto
  next
    case False
    have e: "zeroes_loop v j = zeroes_loop v (j + 1)"
      using False lt by (subst zeroes_loop.simps) (simp add: test_bit test_bit_exp)
    have "d = 64 - (j + 1)" using Suc.hyps(2) by simp
    from Suc.hyps(1) [OF this] lt have
      ih: "j + 1 \<le> zeroes_loop v (j + 1)" "zeroes_loop v (j + 1) \<le> 64"
      "\<forall>i. j + 1 \<le> i \<and> i < zeroes_loop v (j + 1) \<longrightarrow> \<not> bit v i"
      "zeroes_loop v (j + 1) < 64 \<longrightarrow> bit v (zeroes_loop v (j + 1))"
      by simp_all
    have "\<not> bit v i" if "j \<le> i" "i < zeroes_loop v (j + 1)" for i
    proof (cases "i = j")
      case True
      with False show ?thesis by simp
    next
      case False
      with that ih(3) show ?thesis by simp
    qed
    with ih e show ?thesis by simp
  qed
qed

lemma runs_loop_returns:
  "0 < P \<Longrightarrow>
   runs_loop v run P off =
     Some (\<forall>j. off + j * P < 64 \<longrightarrow> (drop_bit (off + j * P) v AND (push_bit P 1 - 1)) = run)"
proof (induction "64 - off" arbitrary: off rule: less_induct)
  case less
  show ?case
  proof (cases "off < 64")
    case False
    then have "runs_loop v run P off = Some True"
      by (subst runs_loop.simps) simp
    with False show ?thesis by simp
  next
    case True
    show ?thesis
    proof (cases "(drop_bit off v AND (push_bit P 1 - 1)) = run")
      case False
      then have "runs_loop v run P off = Some False"
        using True by (subst runs_loop.simps) simp
      moreover have "\<not> (\<forall>j. off + j * P < 64 \<longrightarrow>
          (drop_bit (off + j * P) v AND (push_bit P 1 - 1)) = run)"
        using False True by (auto intro: exI [of _ 0])
      ultimately show ?thesis by simp
    next
      case c: True
      have "64 - (off + P) < 64 - off"
        using True less.prems by simp
      from less.hyps [OF this less.prems] have ih:
        "runs_loop v run P (off + P) =
           Some (\<forall>j. off + P + j * P < 64 \<longrightarrow>
                  (drop_bit (off + P + j * P) v AND (push_bit P 1 - 1)) = run)" .
      have e: "runs_loop v run P off = runs_loop v run P (off + P)"
        using True c by (subst runs_loop.simps) simp
      have "(\<forall>j. off + j * P < 64 \<longrightarrow>
               (drop_bit (off + j * P) v AND (push_bit P 1 - 1)) = run) \<longleftrightarrow>
            (\<forall>j. off + P + j * P < 64 \<longrightarrow>
               (drop_bit (off + P + j * P) v AND (push_bit P 1 - 1)) = run)"
      proof
        assume a: "\<forall>j. off + j * P < 64 \<longrightarrow>
               (drop_bit (off + j * P) v AND (push_bit P 1 - 1)) = run"
        show "\<forall>j. off + P + j * P < 64 \<longrightarrow>
               (drop_bit (off + P + j * P) v AND (push_bit P 1 - 1)) = run"
        proof (intro allI impI)
          fix j
          assume "off + P + j * P < 64"
          then show "(drop_bit (off + P + j * P) v AND (push_bit P 1 - 1)) = run"
            using a [rule_format, of "Suc j"] by (simp add: ac_simps)
        qed
      next
        assume a: "\<forall>j. off + P + j * P < 64 \<longrightarrow>
               (drop_bit (off + P + j * P) v AND (push_bit P 1 - 1)) = run"
        show "\<forall>j. off + j * P < 64 \<longrightarrow>
               (drop_bit (off + j * P) v AND (push_bit P 1 - 1)) = run"
        proof (intro allI impI)
          fix j
          assume b: "off + j * P < 64"
          show "(drop_bit (off + j * P) v AND (push_bit P 1 - 1)) = run"
          proof (cases j)
            case 0
            with c show ?thesis by simp
          next
            case (Suc j')
            with b a [rule_format, of j'] show ?thesis by (simp add: ac_simps)
          qed
        qed
      qed
      with ih e show ?thesis by simp
    qed
  qed
qed

subsection \<open>Tiled patterns\<close>

lemma bit_tiled: "bit (tiled Y X) i \<longleftrightarrow> i < 64 \<and> i mod (X + Y) < Y"
  by (auto simp add: tiled_def bit_simps)

lemma run_mask: "(push_bit P 1 - 1 :: 64 word) = mask P"
  by (simp add: mask_eq_exp_minus_1 push_bit_of_1)

lemma chunk_eq:
  fixes v :: "64 word"
  shows "(drop_bit off v AND mask P) = (v AND mask P) \<longleftrightarrow>
         (\<forall>i < P. bit v (off + i) \<longleftrightarrow> bit v i)"
proof
  assume e: "(drop_bit off v AND mask P) = (v AND mask P)"
  show "\<forall>i < P. bit v (off + i) \<longleftrightarrow> bit v i"
  proof (intro allI impI)
    fix i
    assume i: "i < P"
    have "bit (drop_bit off v AND mask P) i \<longleftrightarrow> bit (v AND mask P) i"
      using e by simp
    then show "bit v (off + i) \<longleftrightarrow> bit v i"
      using i by (auto simp add: bit_simps dest: bit64)
  qed
next
  assume a: "\<forall>i < P. bit v (off + i) \<longleftrightarrow> bit v i"
  show "(drop_bit off v AND mask P) = (v AND mask P)"
    by (rule word64_eqI) (use a in \<open>auto simp add: bit_simps\<close>)
qed

lemma pow2_cases:
  assumes "0 < Y" and "0 < X" and "X + Y = 2 ^ k" and "X + Y \<le> 64"
  shows "X + Y \<in> {2, 4, 8, 16, 32, 64 :: nat}"
proof -
  have "(2 :: nat) ^ k \<le> 2 ^ 6"
    using assms(3) assms(4) by simp
  then have "k \<le> 6"
    by (simp only: power_increasing_iff [of "2 :: nat"] one_less_numeral_iff semiring_norm)
  moreover have "k \<noteq> 0"
    using assms by (cases k) auto
  ultimately have "k = 1 \<or> k = 2 \<or> k = 3 \<or> k = 4 \<or> k = 5 \<or> k = 6"
    by arith
  then show ?thesis
    using assms(3) by auto
qed

lemma period_divides: "P \<in> {2, 4, 8, 16, 32, 64 :: nat} \<Longrightarrow> P dvd 64 \<and> 0 < P"
  by auto

lemma mult_bound:
  fixes P m :: nat
  assumes "P dvd 64" and "m * P < 64"
  shows "m * P + P \<le> 64"
proof -
  from assms(1) obtain c where "64 = P * c" by (auto simp add: dvd_def)
  then have c: "P * c = 64" by simp
  have "m * P < P * c" using assms(2) c by simp
  then have "m < c" by (metis mult.commute mult_less_cancel2)
  then have "Suc m \<le> c" by simp
  then have "Suc m * P \<le> c * P" by (rule mult_le_mono1)
  then show ?thesis using c by (simp add: mult.commute)
qed

lemma periodic_runs:
  fixes v :: "64 word"
  assumes P: "P dvd 64" "0 < P"
  shows "(\<forall>j. P + j * P < 64 \<longrightarrow> (drop_bit (P + j * P) v AND mask P) = (v AND mask P)) \<longleftrightarrow>
         (\<forall>i < 64. bit v i \<longleftrightarrow> bit v (i mod P))"
proof
  assume a: "\<forall>j. P + j * P < 64 \<longrightarrow> (drop_bit (P + j * P) v AND mask P) = (v AND mask P)"
  show "\<forall>i < 64. bit v i \<longleftrightarrow> bit v (i mod P)"
  proof (intro allI impI)
    fix i :: nat
    assume i: "i < 64"
    show "bit v i \<longleftrightarrow> bit v (i mod P)"
    proof (cases "i < P")
      case True
      then show ?thesis by simp
    next
      case False
      define q where "q = i div P"
      have "0 < i div P"
        using False P(2) by (simp add: div_greater_zero_iff)
      then have q1: "1 \<le> q"
        by (simp add: q_def)
      have iq: "i = q * P + i mod P"
        by (simp add: q_def)
      have lt: "P + (q - 1) * P < 64"
      proof -
        have "P + (q - 1) * P = q * P"
          using q1 by (cases q) simp_all
        also have "\<dots> \<le> i" using iq by simp
        finally show ?thesis using i by simp
      qed
      have e: "P + (q - 1) * P = q * P"
        using q1 by (cases q) simp_all
      from a [rule_format, OF lt] have "(drop_bit (q * P) v AND mask P) = (v AND mask P)"
        by (simp only: e)
      then have "\<forall>k < P. bit v (q * P + k) \<longleftrightarrow> bit v k"
        by (simp only: chunk_eq)
      then have "bit v (q * P + i mod P) \<longleftrightarrow> bit v (i mod P)"
        using P(2) by simp
      with iq show ?thesis by simp
    qed
  qed
next
  assume a: "\<forall>i < 64. bit v i \<longleftrightarrow> bit v (i mod P)"
  show "\<forall>j. P + j * P < 64 \<longrightarrow> (drop_bit (P + j * P) v AND mask P) = (v AND mask P)"
  proof (intro allI impI)
    fix j
    assume lt: "P + j * P < 64"
    have "Suc j * P + P \<le> 64"
      using mult_bound [OF P(1), of "Suc j"] lt by (simp add: ac_simps)
    then have b: "P + j * P + P \<le> 64" by (simp add: ac_simps)
    have "bit v (P + j * P + k) \<longleftrightarrow> bit v k" if "k < P" for k
    proof -
      have "P + j * P + k < 64" using b that by simp
      moreover have "(P + j * P + k) mod P = k"
      proof -
        have "(P + j * P + k) mod P = (k + Suc j * P) mod P" by (simp add: ac_simps)
        also have "\<dots> = k mod P" by (rule mod_mult_self1)
        also have "\<dots> = k" using that by simp
        finally show ?thesis .
      qed
      ultimately show ?thesis using a by auto
    qed
    then show "(drop_bit (P + j * P) v AND mask P) = (v AND mask P)"
      by (simp add: chunk_eq)
  qed
qed

lemma bitmaskLogical_iff:
  "bitmaskLogical w \<longleftrightarrow>
   (\<exists>Y X. 0 < Y \<and> 0 < X \<and> X + Y \<in> {2, 4, 8, 16, 32, 64} \<and> rotationOf (tiled Y X) w)"
proof
  assume "bitmaskLogical w"
  then obtain Y X r k where "0 < Y" "0 < X" "X + Y = 2 ^ k" "X + Y \<le> 64"
    "w = word_rotr r (tiled Y X)"
    by (auto simp add: bitmaskLogical_def)
  then show "\<exists>Y X. 0 < Y \<and> 0 < X \<and> X + Y \<in> {2, 4, 8, 16, 32, 64} \<and> rotationOf (tiled Y X) w"
    using pow2_cases [of Y X k] rotationOf_word_rotr [of "tiled Y X" r] by blast
next
  assume "\<exists>Y X. 0 < Y \<and> 0 < X \<and> X + Y \<in> {2, 4, 8, 16, 32, 64} \<and> rotationOf (tiled Y X) w"
  then obtain Y X r where yx: "0 < Y" "0 < X" "X + Y \<in> {2, 4, 8, 16, 32, 64}"
    and w: "w = word_rotr r (tiled Y X)"
    by (auto simp add: rotationOf_iff)
  have "X + Y = 2 ^ 1 \<or> X + Y = 2 ^ 2 \<or> X + Y = 2 ^ 3 \<or> X + Y = 2 ^ 4 \<or>
        X + Y = 2 ^ 5 \<or> X + Y = 2 ^ 6"
    using yx(3) by auto
  then have "\<exists>k. X + Y = 2 ^ k" by blast
  moreover have "X + Y \<le> 64" using yx(3) by auto
  ultimately have "(\<exists>k. X + Y = 2 ^ k) \<and> X + Y \<le> 64" by simp
  with yx w show "bitmaskLogical w"
    by (auto simp add: bitmaskLogical_def)
qed

lemma bitmaskLogical_rotation:
  assumes "rotationOf u w"
  shows "bitmaskLogical u \<longleftrightarrow> bitmaskLogical w"
  using assms rotationOf_trans rotationOf_sym unfolding bitmaskLogical_iff by blast

lemma tiled_not_trivial:
  assumes "0 < Y" and "0 < X" and "X + Y \<le> 64"
  shows "bit (tiled Y X) 0" and "\<not> bit (tiled Y X) Y"
  using assms by (simp_all add: bit_tiled)

lemma bitmaskLogical_not_zero: "\<not> bitmaskLogical 0"
proof
  assume "bitmaskLogical 0"
  then obtain Y X where yx: "0 < Y" "0 < X" "X + Y \<in> {2, 4, 8, 16, 32, 64}"
    and r: "rotationOf (tiled Y X) 0"
    by (auto simp add: bitmaskLogical_iff)
  from rotationOf_sym [OF r] obtain k where
    "\<forall>i < 64. bit (tiled Y X) i \<longleftrightarrow> bit (0 :: 64 word) ((i + k) mod 64)"
    by (auto simp add: rotationOf_def)
  then have "\<not> bit (tiled Y X) 0" by simp
  moreover have "X + Y \<le> 64" using yx(3) by auto
  ultimately show False using tiled_not_trivial(1) [OF yx(1) yx(2)] by simp
qed

lemma bitmaskLogical_not_ones: "\<not> bitmaskLogical (NOT 0)"
proof
  assume "bitmaskLogical (NOT 0)"
  then obtain Y X where yx: "0 < Y" "0 < X" "X + Y \<in> {2, 4, 8, 16, 32, 64}"
    and r: "rotationOf (tiled Y X) (NOT 0)"
    by (auto simp add: bitmaskLogical_iff)
  have le: "X + Y \<le> 64" using yx(3) by auto
  from rotationOf_sym [OF r] obtain k where
    "\<forall>i < 64. bit (tiled Y X) i \<longleftrightarrow> bit (NOT 0 :: 64 word) ((i + k) mod 64)"
    by (auto simp add: rotationOf_def)
  then have "\<forall>i < 64. bit (tiled Y X) i" by (simp add: bit_simps)
  moreover have "Y < 64" using le yx(2) by simp
  ultimately show False using tiled_not_trivial(2) [OF yx(1) yx(2) le] by simp
qed

subsection \<open>The normalised word\<close>

lemma aligned_rotation:
  fixes k Y P :: nat
  assumes P: "P dvd 64" "0 < P"
    and b0: "k mod P < Y" and b63: "\<not> (63 + k) mod P < Y"
  shows "k mod P = 0"
proof (rule ccontr)
  assume n: "k mod P \<noteq> 0"
  define t where "t = k mod P"
  have t: "0 < t" "t < P" "t < Y"
    using n b0 P(2) by (simp_all add: t_def)
  from P(1) obtain c where "64 = P * c" by (auto simp add: dvd_def)
  then have c: "c * P = 64" by (simp add: mult.commute)
  have "(63 + k) mod P = (63 + t) mod P"
    by (simp add: t_def mod_add_right_eq)
  also have "63 + t = (t - 1) + c * P"
    using c t(1) by simp
  also have "((t - 1) + c * P) mod P = (t - 1) mod P"
    by (rule mod_mult_self1)
  also have "\<dots> = t - 1"
    using t(2) by simp
  finally have "(63 + k) mod P < Y"
    using t(3) by simp
  with b63 show False by simp
qed

lemma tiled_unique:
  assumes yx: "0 < Y" "0 < X" "X + Y \<in> {2, 4, 8, 16, 32, 64}"
    and r: "rotationOf (tiled Y X) w" and b0: "bit w 0" and b63: "\<not> bit w 63"
  shows "w = tiled Y X"
proof -
  let ?P = "X + Y"
  have d: "?P dvd 64" "0 < ?P" using period_divides [OF yx(3)] by simp_all
  from r obtain k where k: "\<forall>i < 64. bit w i \<longleftrightarrow> bit (tiled Y X) ((i + k) mod 64)"
    by (auto simp add: rotationOf_def)
  have w: "bit w i \<longleftrightarrow> (i + k) mod ?P < Y" if "i < 64" for i
    using k that d(1) by (simp add: bit_tiled mod_mod_cancel)
  have "k mod ?P < Y" using w [of 0] b0 by simp
  moreover have "\<not> (63 + k) mod ?P < Y" using w [of 63] b63 by simp
  ultimately have "k mod ?P = 0" using aligned_rotation [OF d] by blast
  then have "(i + k) mod ?P = i mod ?P" for i
    by (metis add.right_neutral mod_add_right_eq)
  then have "bit w i \<longleftrightarrow> bit (tiled Y X) i" if "i < 64" for i
    using w [OF that] that by (simp add: bit_tiled)
  then show ?thesis by (rule word64_eqI)
qed

lemma tiled_runs:
  assumes yx: "0 < Y" "0 < X" "X + Y \<in> {2, 4, 8, 16, 32, 64}"
    and o: "\<forall>i < ones. bit (tiled Y X) i" "\<not> bit (tiled Y X) ones" "ones \<le> 63"
    and z: "ones \<le> z" "z \<le> 64" "\<forall>i. ones \<le> i \<and> i < z \<longrightarrow> \<not> bit (tiled Y X) i"
      "z < 64 \<longrightarrow> bit (tiled Y X) z"
  shows "ones = Y \<and> z = X + Y"
proof -
  let ?P = "X + Y"
  have le: "?P \<le> 64" using yx(3) by auto
  have y: "Y < ?P" "Y < 64" using yx(2) le by simp_all
  have ones: "ones = Y"
  proof (rule antisym)
    show "ones \<le> Y"
    proof (rule ccontr)
      assume "\<not> ones \<le> Y"
      then have "bit (tiled Y X) Y" using o(1) by simp
      then show False using y by (simp add: bit_tiled)
    qed
    show "Y \<le> ones"
    proof (rule ccontr)
      assume "\<not> Y \<le> ones"
      then have "ones < Y" by simp
      then have "bit (tiled Y X) ones" using y by (simp add: bit_tiled)
      with o(2) show False by simp
    qed
  qed
  have "z = ?P"
  proof (rule antisym)
    show "z \<le> ?P"
    proof (rule ccontr)
      assume "\<not> z \<le> ?P"
      then have lt: "?P < z" by simp
      then have "\<not> bit (tiled Y X) ?P" using z(3) ones by simp
      moreover have "?P < 64" using lt z(2) by simp
      ultimately show False using yx(1) by (simp add: bit_tiled)
    qed
    show "?P \<le> z"
    proof (rule ccontr)
      assume "\<not> ?P \<le> z"
      then have lt: "z < ?P" by simp
      then have "z < 64" using le by simp
      then have "bit (tiled Y X) z" using z(4) by simp
      then have "z < Y" using lt by (simp add: bit_tiled)
      with z(1) ones show False by simp
    qed
  qed
  with ones show ?thesis by simp
qed

lemma tiled_from_runs:
  fixes w :: "64 word"
  assumes o: "\<forall>i < ones. bit w i" and z: "ones \<le> z" "\<forall>i. ones \<le> i \<and> i < z \<longrightarrow> \<not> bit w i"
    and p: "0 < z" "\<forall>i < 64. bit w i \<longleftrightarrow> bit w (i mod z)"
  shows "w = tiled ones (z - ones)"
proof (rule word64_eqI)
  fix i :: nat
  assume i: "i < 64"
  have "i mod z < z" using p(1) by simp
  then have "bit w (i mod z) \<longleftrightarrow> i mod z < ones"
    using o z(2) by (cases "i mod z < ones") simp_all
  then show "bit w i \<longleftrightarrow> bit (tiled ones (z - ones)) i"
    using p(2) i z(1) by (simp add: bit_tiled)
qed

lemma tiled_periodic:
  assumes "X + Y \<le> 64" and "0 < X + Y"
  shows "\<forall>i < 64. bit (tiled Y X) i \<longleftrightarrow> bit (tiled Y X) (i mod (X + Y))"
proof (intro allI impI)
  fix i :: nat
  assume "i < 64"
  moreover have "i mod (X + Y) < 64"
    using assms by (meson less_le_trans mod_less_divisor)
  ultimately show "bit (tiled Y X) i \<longleftrightarrow> bit (tiled Y X) (i mod (X + Y))"
    by (simp add: bit_tiled)
qed

text \<open>The decision taken on a word whose bit 0 is set and whose bit 63 is clear.\<close>

lemma normalised_decision:
  assumes b0: "bit w 0" and b63: "\<not> bit w 63"
  shows "\<exists>ones. ones_loop w 1 = Some ones \<and>
           (if ones + (zeroes_loop w ones - ones) = 64 then Some True
            else if ones + (zeroes_loop w ones - ones) \<noteq> 2 \<and>
                    ones + (zeroes_loop w ones - ones) \<noteq> 4 \<and>
                    ones + (zeroes_loop w ones - ones) \<noteq> 8 \<and>
                    ones + (zeroes_loop w ones - ones) \<noteq> 16 \<and>
                    ones + (zeroes_loop w ones - ones) \<noteq> 32
            then Some False
            else runs_loop w (w AND (push_bit (ones + (zeroes_loop w ones - ones)) 1 - 1))
                   (ones + (zeroes_loop w ones - ones))
                   (ones + (zeroes_loop w ones - ones))) =
           Some (bitmaskLogical w)"
proof -
  have "\<forall>i < 1. bit w i" using b0 by simp
  from ones_loop_returns [OF b63 _ this] obtain ones where
    o: "ones_loop w 1 = Some ones" "1 \<le> ones" "ones \<le> 63" "\<forall>i < ones. bit w i"
    "\<not> bit w ones"
    by auto
  define z where "z = zeroes_loop w ones"
  have z: "ones \<le> z" "z \<le> 64" "\<forall>i. ones \<le> i \<and> i < z \<longrightarrow> \<not> bit w i" "z < 64 \<longrightarrow> bit w z"
    using zeroes_loop_returns [of ones w] o(3) by (simp_all add: z_def)
  have oz: "ones < z"
  proof (rule ccontr)
    assume "\<not> ones < z"
    then have "z = ones" using z(1) by simp
    with z(4) o(3) o(5) show False by simp
  qed
  have zpos: "0 < z" "0 < z - ones" "0 < ones" "z - ones + ones = z"
    using oz o(2) by simp_all
  text \<open>A bitmask immediate in normal form is the tiling of its own first runs.\<close>
  have only_if: "z \<in> {2, 4, 8, 16, 32, 64} \<and> w = tiled ones (z - ones)" if bm: "bitmaskLogical w"
  proof -
    from bm obtain Y X where yx: "0 < Y" "0 < X" "X + Y \<in> {2, 4, 8, 16, 32, 64}"
      and r: "rotationOf (tiled Y X) w"
      by (auto simp add: bitmaskLogical_iff)
    have w: "w = tiled Y X" using tiled_unique [OF yx r b0 b63] .
    have "ones = Y \<and> z = X + Y"
      using tiled_runs [OF yx, of ones z] o z unfolding w by blast
    then show ?thesis using yx(3) w by auto
  qed
  have if_tiled: "bitmaskLogical w" if "z \<in> {2, 4, 8, 16, 32, 64}" "w = tiled ones (z - ones)"
  proof -
    have "rotationOf (tiled ones (z - ones)) w" using that(2) rotationOf_refl by simp
    then have "0 < ones \<and> 0 < z - ones \<and> z - ones + ones \<in> {2, 4, 8, 16, 32, 64} \<and>
        rotationOf (tiled ones (z - ones)) w"
      using zpos that(1) by simp
    then show ?thesis
      unfolding bitmaskLogical_iff by blast
  qed
  have "(if z = 64 then Some True
         else if z \<notin> {2, 4, 8, 16, 32} then Some False
         else runs_loop w (w AND (push_bit z 1 - 1)) z z) = Some (bitmaskLogical w)"
  proof (cases "z = 64")
    case True
    have "\<forall>i < 64. bit w i \<longleftrightarrow> bit w (i mod z)" using True by simp
    from tiled_from_runs [OF o(4) z(1) z(3) zpos(1) this] have "w = tiled ones (z - ones)" .
    with True if_tiled show ?thesis by simp
  next
    case n64: False
    show ?thesis
    proof (cases "z \<in> {2, 4, 8, 16, 32}")
      case False
      with n64 only_if have "\<not> bitmaskLogical w" by auto
      with n64 False show ?thesis by simp
    next
      case True
      then have d: "z dvd 64" "0 < z" by auto
      have "runs_loop w (w AND (push_bit z 1 - 1)) z z =
              Some (\<forall>j. z + j * z < 64 \<longrightarrow>
                     (drop_bit (z + j * z) w AND (push_bit z 1 - 1)) =
                       (w AND (push_bit z 1 - 1)))"
        using runs_loop_returns [OF d(2)] .
      also have "\<dots> = Some (\<forall>i < 64. bit w i \<longleftrightarrow> bit w (i mod z))"
        using periodic_runs [OF d, of w] by (simp only: run_mask)
      also have "(\<forall>i < 64. bit w i \<longleftrightarrow> bit w (i mod z)) \<longleftrightarrow> bitmaskLogical w"
      proof
        assume "\<forall>i < 64. bit w i \<longleftrightarrow> bit w (i mod z)"
        from tiled_from_runs [OF o(4) z(1) z(3) zpos(1) this] have "w = tiled ones (z - ones)" .
        moreover have "z \<in> {2, 4, 8, 16, 32, 64}" using True by auto
        ultimately show "bitmaskLogical w" by (rule if_tiled [rotated])
      next
        assume "bitmaskLogical w"
        from only_if [OF this] have w: "w = tiled ones (z - ones)" by simp
        have "\<forall>i < 64. bit (tiled ones (z - ones)) i \<longleftrightarrow>
                bit (tiled ones (z - ones)) (i mod (z - ones + ones))"
          using tiled_periodic [of "z - ones" ones] zpos z(2) by simp
        then show "\<forall>i < 64. bit w i \<longleftrightarrow> bit w (i mod z)"
          using w zpos(4) by simp
      qed
      finally show ?thesis using n64 True by simp
    qed
  qed
  then have "(if z = 64 then Some True
         else if z \<noteq> 2 \<and> z \<noteq> 4 \<and> z \<noteq> 8 \<and> z \<noteq> 16 \<and> z \<noteq> 32 then Some False
         else runs_loop w (w AND (push_bit z 1 - 1)) z z) = Some (bitmaskLogical w)"
    by (simp only: insert_iff empty_iff de_Morgan_disj simp_thms)
  moreover have "ones + (z - ones) = z"
    using z(1) by simp
  ultimately have "(if ones + (z - ones) = 64 then Some True
         else if ones + (z - ones) \<noteq> 2 \<and> ones + (z - ones) \<noteq> 4 \<and> ones + (z - ones) \<noteq> 8 \<and>
                 ones + (z - ones) \<noteq> 16 \<and> ones + (z - ones) \<noteq> 32
         then Some False
         else runs_loop w (w AND (push_bit (ones + (z - ones)) 1 - 1))
                (ones + (z - ones)) (ones + (z - ones))) = Some (bitmaskLogical w)"
    by (simp only:)
  then show ?thesis
    using o(1) unfolding z_def by blast
qed

subsection \<open>The whole check\<close>

lemma duplicate32:
  "push_bit 32 v OR ucast (ucast v :: 32 word) =
   (word_cat (ucast v :: 32 word) (ucast v :: 32 word) :: 64 word)" for v :: "64 word"
proof (rule word64_eqI)
  fix i :: nat
  assume "i < 64"
  then show "bit (push_bit 32 v OR ucast (ucast v :: 32 word)) i \<longleftrightarrow>
             bit (word_cat (ucast v :: 32 word) (ucast v :: 32 word) :: 64 word) i"
    by (cases "i < 32") (auto simp add: bit_simps)
qed

lemma rotation_of_ones: "rotationOf (NOT 0) u \<Longrightarrow> u = NOT 0"
  by (auto simp add: rotationOf_def bit_simps intro!: word64_eqI)

lemma isOperandLogicalConstantARMv8a_correct:
  "isOperandLogicalConstantARMv8a v sz = Some (bitmaskLogical (operand64 v sz))"
proof -
  define v1 where "v1 = operand64 v sz"
  have v1: "(if sz = Size32 then push_bit 32 v OR ucast (ucast v :: 32 word) else v) = v1"
    by (simp add: v1_def operand64_def duplicate32)
  show ?thesis
  proof (cases "v1 = 0 \<or> v1 = NOT 0")
    case True
    then have "\<not> bitmaskLogical v1"
      using bitmaskLogical_not_zero bitmaskLogical_not_ones by auto
    moreover have "isOperandLogicalConstantARMv8a v sz = Some False"
      using True unfolding isOperandLogicalConstantARMv8a_def v1 by (simp add: Let_def)
    ultimately show ?thesis by (simp add: v1_def)
  next
    case False
    then obtain n where "bit v1 n" using nonzero_has_bit by blast
    from rotate_right_loop_returns [OF this] obtain k where
      r1: "rotate_right_loop v1 = Some (word_rotr k v1)" and b0: "bit (word_rotr k v1) 0"
      by blast
    define v2 where "v2 = word_rotr k v1"
    have rot12: "rotationOf v1 v2"
      by (simp add: v2_def rotationOf_word_rotr)
    have "v2 \<noteq> NOT 0"
    proof
      assume "v2 = NOT 0"
      then have "rotationOf (NOT 0) v1" using rotationOf_sym [OF rot12] by simp
      then have "v1 = NOT 0" by (rule rotation_of_ones)
      with False show False by simp
    qed
    then obtain m where m: "m < 64" "\<not> bit v2 m" using not_ones_has_gap by blast
    have "\<not> bit v2 (63 - (63 - m))" using m by simp
    from rotate_left_loop_returns [OF this] b0 obtain k' where
      r2: "rotate_left_loop v2 = Some (word_rotr k' v2)"
      and c63: "\<not> bit (word_rotr k' v2) 63" and c0: "bit (word_rotr k' v2) 0"
      by (auto simp add: v2_def)
    define w where "w = word_rotr k' v2"
    have "rotationOf v1 w"
      using rot12 rotationOf_word_rotr [of v2 k'] rotationOf_trans by (simp add: w_def)
    then have same: "bitmaskLogical v1 \<longleftrightarrow> bitmaskLogical w"
      by (rule bitmaskLogical_rotation)
    from normalised_decision [of w] c0 c63 obtain ones where
      o: "ones_loop w 1 = Some ones"
      and dec: "(if ones + (zeroes_loop w ones - ones) = 64 then Some True
            else if ones + (zeroes_loop w ones - ones) \<noteq> 2 \<and>
                    ones + (zeroes_loop w ones - ones) \<noteq> 4 \<and>
                    ones + (zeroes_loop w ones - ones) \<noteq> 8 \<and>
                    ones + (zeroes_loop w ones - ones) \<noteq> 16 \<and>
                    ones + (zeroes_loop w ones - ones) \<noteq> 32
            then Some False
            else runs_loop w (w AND (push_bit (ones + (zeroes_loop w ones - ones)) 1 - 1))
                   (ones + (zeroes_loop w ones - ones))
                   (ones + (zeroes_loop w ones - ones))) =
           Some (bitmaskLogical w)"
      by (auto simp add: w_def)
    have nz: "(v1 = 0 \<or> v1 = NOT 0) = False"
      using False by simp
    have r1': "rotate_right_loop v1 = Some v2"
      using r1 by (simp add: v2_def)
    have r2': "rotate_left_loop v2 = Some w"
      using r2 by (simp add: w_def)
    have "isOperandLogicalConstantARMv8a v sz = Some (bitmaskLogical w)"
      unfolding isOperandLogicalConstantARMv8a_def v1 Let_def
      by (simp only: nz if_False r1' r2' o option.case dec)
    with same show ?thesis by (simp add: v1_def)
  qed
qed

text \<open>
  Claim C5: for the opcodes ANDI, ORI and XORI, \<open>validateImmediate\<close> on ARMv8a returns, and
  returns true exactly when the operand (a value of size \<open>Size32\<close> duplicated into both
  halves of the 64-bit word) is a rotation of a 64-bit word tiled with \<open>Y > 0\<close> ones
  followed by \<open>X > 0\<close> zeros, \<open>X + Y\<close> a power of two; the all-zeroes and the all-ones
  words are rejected.
\<close>

theorem validateImmediate_logical:
  assumes "t \<in> {ANDI, ORI, XORI}"
  shows "Platform_ARMv8a_validateImmediate t v sz = Some (bitmaskLogical (operand64 v sz)) \<and>
         Platform_ARMv8a_validateImmediate t 0 sz = Some False \<and>
         Platform_ARMv8a_validateImmediate t (NOT 0) sz = Some False"
proof -
  have n: "t \<notin> {ADDI, CMPI, CMPNI, SUBI}"
    using assms by (auto simp add: ANDI_def ORI_def XORI_def ADDI_def CMPI_def CMPNI_def SUBI_def)
  have e: "Platform_ARMv8a_validateImmediate t u sz = Some (bitmaskLogical (operand64 u sz))" for u
    using assms n
    by (simp only: Platform_ARMv8a_validateImmediate_def if_False if_True
        isOperandLogicalConstantARMv8a_correct)
  have z: "operand64 0 sz = 0"
    by (simp add: operand64_def)
  have "(word_cat (ucast (- 1 :: 64 word) :: 32 word) (ucast (- 1 :: 64 word) :: 32 word)
          :: 64 word) = - 1"
    by (rule word64_eqI) (auto simp add: bit_simps)
  then have o: "operand64 (NOT 0) sz = NOT 0"
    by (simp add: operand64_def)
  show ?thesis
    using e [of v] e [of 0] e [of "NOT 0"] z o bitmaskLogical_not_zero bitmaskLogical_not_ones
    by simp
qed

theorem validateImmediate_logical_witness:
  "ANDI \<in> {ANDI, ORI, XORI} \<and>
   Platform_ARMv8a_validateImmediate ANDI 0xFF00FF00FF00FF00 Size64 = Some True \<and>
   bitmaskLogical 0xFF00FF00FF00FF00 \<and>
   Platform_ARMv8a_validateImmediate ANDI 5 Size64 = Some False \<and>
   \<not> bitmaskLogical 5 \<and>
   Platform_ARMv8a_validateImmediate ANDI 0xE0000003 Size32 = Some True \<and>
   bitmaskLogical 0xE0000003E0000003 \<and>
   Platform_ARMv8a_validateImmediate ANDI 0 Size64 = Some False \<and>
   Platform_ARMv8a_validateImmediate ANDI (NOT 0) Size64 = Some False"
proof -
  have t: "ANDI \<in> {ANDI, ORI, XORI}" by simp
  have e1: "Platform_ARMv8a_validateImmediate ANDI 0xFF00FF00FF00FF00 Size64 = Some True"
    by code_simp
  have e2: "Platform_ARMv8a_validateImmediate ANDI 5 Size64 = Some False"
    by code_simp
  have e3: "Platform_ARMv8a_validateImmediate ANDI 0xE0000003 Size32 = Some True"
    by code_simp
  have o1: "operand64 0xFF00FF00FF00FF00 Size64 = 0xFF00FF00FF00FF00"
    "operand64 5 Size64 = 5"
    by (simp_all add: operand64_def)
  have o3: "operand64 0xE0000003 Size32 = 0xE0000003E0000003"
    by code_simp
  show ?thesis
    using t e1 e2 e3
      validateImmediate_logical [OF t, of "0xFF00FF00FF00FF00" Size64]
      validateImmediate_logical [OF t, of 5 Size64]
      validateImmediate_logical [OF t, of "0xE0000003" Size32]
    by (simp add: o1 o3)
qed

end
